theory Spec2Isabelle
  imports Main "HOL-Library.Word" "HOL-Library.Sublist"
begin

section \<open>Data: bytes, chunks and JavaScript strings\<close>

text \<open>
  The worker of \<^verbatim>\<open>GTM-Medium_Worker.js\<close> reads the body of an origin response as a
  sequence of \<^verbatim>\<open>Uint8Array\<close> chunks, decodes every chunk to a JavaScript string,
  splices the Tag Manager snippet in front of \<^verbatim>\<open></head>\<close> and writes the re-encoded
  string to the client.

  A chunk is a list of bytes. A JavaScript string is modelled as the list of its Unicode
  code points. The strict decoder only produces scalar values, the snippet and the marker
  are ASCII, \<^verbatim>\<open>indexOf\<close> is asked for an ASCII needle and \<^verbatim>\<open>slice\<close> cuts at the
  index it returned, so no operation of the worker can tell code points from UTF-16 code
  units; \<^verbatim>\<open>content.length\<close> is only compared with zero.
\<close>

type_synonym byte = "8 word"
type_synonym chunk = "byte list"
type_synonym jsstring = "nat list"

definition js :: "string \<Rightarrow> jsstring" where
  "js s = map of_char s"

text \<open>
  The exceptions the worker can meet, as values: the \<^verbatim>\<open>TypeError\<close> of the strict
  decoder, the rejections of the reader and of the writer, and the \<^verbatim>\<open>RangeError\<close> with
  which the runtime gives up an operation on strings (a string too long, a stack too deep).
\<close>

datatype exn = TypeError | ReadError | WriteError | CloseError | RangeError

text \<open>
  A completion of a piece of code that mutates local variables: it either ends normally
  or throws, and in both cases the variables keep the values they had at that moment.
\<close>

datatype 'a completion = Normal 'a | Throw exn 'a

fun state_of :: "'a completion \<Rightarrow> 'a" where
  "state_of (Normal s) = s"
| "state_of (Throw e s) = s"

text \<open>\<^verbatim>\<open>try { ... } catch (e) { /* Ignore the exception */ }\<close>\<close>

fun try_ignore :: "'a completion \<Rightarrow> 'a completion" where
  "try_ignore (Normal s) = Normal s"
| "try_ignore (Throw e s) = Normal s"

section \<open>Constants of the worker\<close>

text \<open>\<^verbatim>\<open>const VALID_CHARSETS = ['utf-8', 'utf8', 'iso-8859-1', 'us-ascii'];\<close>\<close>

definition VALID_CHARSETS :: "jsstring list" where
  "VALID_CHARSETS = [js ''utf-8'', js ''utf8'', js ''iso-8859-1'', js ''us-ascii'']"

text \<open>
  \<^verbatim>\<open>TAG_MANAGER\<close>: the template literal of lines 15 to 19, with its four line breaks.
  The two adjacent apostrophes of \<^verbatim>\<open>l:'';\<close> are written as character codes.
\<close>

definition TAG_MANAGER :: jsstring where
  "TAG_MANAGER =
     js ''<script>(function(w,d,s,l,i){w[l]=w[l]||[];w[l].push({'gtm.start':\<newline>''
   @ js ''new Date().getTime(),event:'gtm.js'});var f=d.getElementsByTagName(s)[0],\<newline>''
   @ js ''j=d.createElement(s),dl=l!='dataLayer'?'&l='+l:'' @ [0x27, 0x27]
   @ js '';j.async=true;j.src=\<newline>''
   @ js '''' @ [0x27]
   @ js ''https://www.googletagmanager.com/gtm.js?id='+i+dl;f.parentNode.insertBefore(j,f);\<newline>''
   @ js ''})(window,document,'script','dataLayer','GTM-XXXXXXX');</script>''"

text \<open>The needle of line 174.\<close>

definition MARKER :: jsstring where
  "MARKER = js ''</head>''"

section \<open>The runtime: strings\<close>

text \<open>
  \<^verbatim>\<open>s.indexOf(pat)\<close>: the least index at which \<^verbatim>\<open>pat\<close> occurs in \<^verbatim>\<open>s\<close>, or -1.
\<close>

fun find_first :: "jsstring \<Rightarrow> jsstring \<Rightarrow> nat option" where
  "find_first pat [] = (if pat = [] then Some 0 else None)"
| "find_first pat (c # cs) =
     (if prefix pat (c # cs) then Some 0 else map_option Suc (find_first pat cs))"

definition indexOf :: "jsstring \<Rightarrow> jsstring \<Rightarrow> int" where
  "indexOf s pat = (case find_first pat s of None \<Rightarrow> - 1 | Some k \<Rightarrow> int k)"

text \<open>
  \<^verbatim>\<open>s.toLowerCase()\<close>. The worker only asks whether the result is one of
  \<^verbatim>\<open>VALID_CHARSETS\<close>, which are ASCII. A character outside ASCII never lowers to
  a letter of one of these names (the Kelvin sign lowers to \<^verbatim>\<open>k\<close>, which none of
  them has, and U+0130 lowers to \<^verbatim>\<open>i\<close> followed by a combining dot), so a string
  with such a character is not found in the list either way. The mapping is written out
  on A to Z and leaves every other code point as it is.
\<close>

definition lower_cp :: "nat \<Rightarrow> nat" where
  "lower_cp c = (if 0x41 \<le> c \<and> c \<le> 0x5A then c + 0x20 else c)"

definition toLowerCase :: "jsstring \<Rightarrow> jsstring" where
  "toLowerCase s = map lower_cp s"

definition array_includes :: "jsstring list \<Rightarrow> jsstring \<Rightarrow> bool" where
  "array_includes xs s = (s \<in> set xs)"

section \<open>The runtime: regular expressions\<close>

text \<open>
  The four regular expressions of the worker are sequences of single characters (or
  classes), greedy starred classes and one capture group around a starred class. They are
  matched as JavaScript does, by backtracking: a starred class first takes one more
  character and gives it back only when the rest of the pattern fails. \<^verbatim>\<open>rx_match\<close>
  returns the text left after the match and the texts left at the opening and at the
  closing of the group. JavaScript matches code units; every pattern starts with an ASCII
  character, and every class that accepts a surrogate stands under a star or a plus and
  is followed by an ASCII character or by the end of the pattern, so neither a match nor
  a group starts or ends inside a surrogate pair, and matching code points gives the same
  matches and the same groups.
\<close>

datatype rx_item = Chr "nat \<Rightarrow> bool" | Star "nat \<Rightarrow> bool" | GroupOpen | GroupClose

fun rx_match ::
  "rx_item list \<Rightarrow> jsstring \<Rightarrow> jsstring \<times> jsstring \<Rightarrow> (jsstring \<times> jsstring \<times> jsstring) option"
where
  "rx_match [] s (a, b) = Some (s, a, b)"
| "rx_match (Chr p # r) [] cap = None"
| "rx_match (Chr p # r) (c # s) cap = (if p c then rx_match r s cap else None)"
| "rx_match (Star p # r) [] cap = rx_match r [] cap"
| "rx_match (Star p # r) (c # s) cap =
     (if p c then
        (case rx_match (Star p # r) s cap of
           Some m \<Rightarrow> Some m
         | None \<Rightarrow> rx_match r (c # s) cap)
      else rx_match r (c # s) cap)"
| "rx_match (GroupOpen # r) s (a, b) = rx_match r s (s, b)"
| "rx_match (GroupClose # r) s (a, b) = rx_match r s (a, s)"

text \<open>
  \<^verbatim>\<open>regex.exec(s)\<close> on a fresh regular expression: the match at the least start
  index. The result is the matched text \<^verbatim>\<open>match[0]\<close> and the group \<^verbatim>\<open>match[1]\<close>.
\<close>

definition rx_result :: "jsstring \<Rightarrow> jsstring \<times> jsstring \<times> jsstring \<Rightarrow> jsstring \<times> jsstring" where
  "rx_result s m = (case m of (rest, a, b) \<Rightarrow>
     (take (length s - length rest) s, take (length a - length b) a))"

fun rx_exec :: "rx_item list \<Rightarrow> jsstring \<Rightarrow> (jsstring \<times> jsstring) option" where
  "rx_exec r [] = map_option (rx_result []) (rx_match r [] ([], []))"
| "rx_exec r (c # s) =
     (case rx_match r (c # s) ([], []) of
        Some m \<Rightarrow> Some (rx_result (c # s) m)
      | None \<Rightarrow> rx_exec r s)"

text \<open>
  Character classes. With the flag \<^verbatim>\<open>i\<close> (and without \<^verbatim>\<open>u\<close>) a letter of the
  pattern matches its two ASCII cases only: the canonicalisation never maps a character
  outside ASCII to an ASCII one. \<^verbatim>\<open>\s\<close> is the white space and the line terminators
  of ECMAScript.
\<close>

definition is_ch :: "char \<Rightarrow> nat \<Rightarrow> bool" where
  "is_ch c x = (x = of_char c)"

definition is_ci :: "char \<Rightarrow> nat \<Rightarrow> bool" where
  "is_ci c x = (lower_cp x = of_char c)"

definition lit_ci :: "string \<Rightarrow> rx_item list" where
  "lit_ci s = map (\<lambda>c. Chr (is_ci c)) s"

definition is_space :: "nat \<Rightarrow> bool" where
  "is_space x = (x \<in> {0x09, 0x0A, 0x0B, 0x0C, 0x0D, 0x20, 0xA0, 0x1680, 0x2028, 0x2029,
                        0x202F, 0x205F, 0x3000, 0xFEFF} \<or> (0x2000 \<le> x \<and> x \<le> 0x200A))"

definition is_quote :: "nat \<Rightarrow> bool" where
  "is_quote x = (x = 0x27 \<or> x = 0x22)"

definition not_gt :: "nat \<Rightarrow> bool" where
  "not_gt x = (x \<noteq> 0x3E)"

text \<open>\<^verbatim>\<open>/charset\s*=\s*([^\s;]+)/mgi\<close> (line 56)\<close>

definition header_charset_rx :: "rx_item list" where
  "header_charset_rx =
     lit_ci ''charset'' @ [Star is_space, Chr (is_ch CHR ''=''), Star is_space,
       GroupOpen, Chr (\<lambda>x. \<not> is_space x \<and> x \<noteq> 0x3B), Star (\<lambda>x. \<not> is_space x \<and> x \<noteq> 0x3B),
       GroupClose]"

text \<open>\<^verbatim>\<open>/<\s*meta[^>]+charset\s*=\s*['"]([^'"]*)['"][^>]*>/mgi\<close> (line 89)\<close>

definition meta_charset_rx :: "rx_item list" where
  "meta_charset_rx =
     [Chr (is_ch CHR ''<''), Star is_space] @ lit_ci ''meta'' @ [Chr not_gt, Star not_gt]
     @ lit_ci ''charset'' @ [Star is_space, Chr (is_ch CHR ''=''), Star is_space, Chr is_quote,
       GroupOpen, Star (\<lambda>x. \<not> is_quote x), GroupClose, Chr is_quote, Star not_gt,
       Chr (is_ch CHR ''>'')]"

text \<open>\<^verbatim>\<open>/<\s*meta[^>]+http-equiv\s*=\s*['"]\s*content-type[^>]*>/mgi\<close> (line 98)\<close>

definition meta_content_type_rx :: "rx_item list" where
  "meta_content_type_rx =
     [Chr (is_ch CHR ''<''), Star is_space] @ lit_ci ''meta'' @ [Chr not_gt, Star not_gt]
     @ lit_ci ''http-equiv'' @ [Star is_space, Chr (is_ch CHR ''=''), Star is_space, Chr is_quote,
       Star is_space] @ lit_ci ''content-type'' @ [Star not_gt, Chr (is_ch CHR ''>'')]"

text \<open>\<^verbatim>\<open>/charset\s*=\s*([^\s"]*)/mgi\<close> (line 102)\<close>

definition meta_inner_rx :: "rx_item list" where
  "meta_inner_rx =
     lit_ci ''charset'' @ [Star is_space, Chr (is_ch CHR ''=''), Star is_space,
       GroupOpen, Star (\<lambda>x. \<not> is_space x \<and> x \<noteq> 0x22), GroupClose]"

section \<open>The charset gate\<close>

text \<open>\<^verbatim>\<open>chunkContainsInvalidCharset(chunk)\<close>, lines 85 to 112.\<close>

definition chunkContainsInvalidCharset :: "jsstring \<Rightarrow> bool" where
  "chunkContainsInvalidCharset chunk =
     (let invalid1 =
            (case rx_exec meta_charset_rx chunk of
               Some (m0, docCharset) \<Rightarrow> \<not> array_includes VALID_CHARSETS (toLowerCase docCharset)
             | None \<Rightarrow> False);
          invalid2 =
            (case rx_exec meta_content_type_rx chunk of
               Some (metaTag, g) \<Rightarrow>
                 (case rx_exec meta_inner_rx metaTag of
                    Some (m0, charset) \<Rightarrow> \<not> array_includes VALID_CHARSETS (toLowerCase charset)
                  | None \<Rightarrow> False)
             | None \<Rightarrow> False)
      in invalid1 \<or> invalid2)"

section \<open>The runtime: the UTF-8 decoder and encoder\<close>

text \<open>
  \<^verbatim>\<open>new TextDecoder("utf-8", {fatal: true})\<close> is the UTF-8 decoder of the WHATWG
  Encoding Standard, with its five state variables and the flag of the byte order mark.
  The shifts and masks of the standard are written as arithmetic:
  \<^verbatim>\<open>byte & 0x1F\<close> is \<open>n mod 32\<close> and
  \<^verbatim>\<open>(code_point << 6) | (byte & 0x3F)\<close> is \<open>code_point * 64 + n mod 64\<close>.
\<close>

record utf8_decoder =
  code_point :: nat
  bytes_seen :: nat
  bytes_needed :: nat
  lower_boundary :: nat
  upper_boundary :: nat
  bom_seen :: bool

definition new_decoder :: utf8_decoder where
  "new_decoder = \<lparr>code_point = 0, bytes_seen = 0, bytes_needed = 0,
                   lower_boundary = 0x80, upper_boundary = 0xBF, bom_seen = False\<rparr>"

text \<open>
  The handler of the decoder for one byte: an error (which the fatal mode throws as a
  \<^verbatim>\<open>TypeError\<close>), or the next state and the code point it emits, if any.
\<close>

definition utf8_handler :: "utf8_decoder \<Rightarrow> byte \<Rightarrow> exn + utf8_decoder \<times> nat option" where
  "utf8_handler d b =
     (let n = unat b in
      if bytes_needed d = 0 then
        (if n \<le> 0x7F then Inr (d, Some n)
         else if 0xC2 \<le> n \<and> n \<le> 0xDF then
           Inr (d\<lparr>bytes_needed := 1, code_point := n mod 32\<rparr>, None)
         else if 0xE0 \<le> n \<and> n \<le> 0xEF then
           Inr (d\<lparr>lower_boundary := (if n = 0xE0 then 0xA0 else lower_boundary d),
                   upper_boundary := (if n = 0xED then 0x9F else upper_boundary d),
                   bytes_needed := 2, code_point := n mod 16\<rparr>, None)
         else if 0xF0 \<le> n \<and> n \<le> 0xF4 then
           Inr (d\<lparr>lower_boundary := (if n = 0xF0 then 0x90 else lower_boundary d),
                   upper_boundary := (if n = 0xF4 then 0x8F else upper_boundary d),
                   bytes_needed := 3, code_point := n mod 8\<rparr>, None)
         else Inl TypeError)
      else if \<not> (lower_boundary d \<le> n \<and> n \<le> upper_boundary d) then Inl TypeError
      else
        (let d1 = d\<lparr>lower_boundary := 0x80, upper_boundary := 0xBF,
                      code_point := code_point d * 64 + n mod 64,
                      bytes_seen := bytes_seen d + 1\<rparr>
         in if bytes_seen d1 \<noteq> bytes_needed d1 then Inr (d1, None)
            else Inr (d1\<lparr>code_point := 0, bytes_needed := 0, bytes_seen := 0\<rparr>,
                      Some (code_point d1))))"

text \<open>
  The bytes of one chunk, in order. With \<^verbatim>\<open>{stream: true}\<close> the end of the chunk
  is not the end of the input: an unfinished sequence stays in the state.
\<close>

fun decode_bytes :: "utf8_decoder \<Rightarrow> byte list \<Rightarrow> exn + utf8_decoder \<times> nat list" where
  "decode_bytes d [] = Inr (d, [])"
| "decode_bytes d (b # bs) =
     (case utf8_handler d b of
        Inl e \<Rightarrow> Inl e
      | Inr (d1, out) \<Rightarrow>
          (case decode_bytes d1 bs of
             Inl e \<Rightarrow> Inl e
           | Inr (d2, cps) \<Rightarrow> Inr (d2, (case out of None \<Rightarrow> cps | Some c \<Rightarrow> c # cps))))"

text \<open>
  The serialisation of the decoded code points: \<^verbatim>\<open>ignoreBOM\<close> is false, so the
  first code point of the stream is dropped when it is U+FEFF.
\<close>

definition serialize :: "utf8_decoder \<Rightarrow> nat list \<Rightarrow> utf8_decoder \<times> jsstring" where
  "serialize d out =
     (if bom_seen d then (d, out)
      else (case out of
              [] \<Rightarrow> (d, [])
            | c # cs \<Rightarrow> (d\<lparr>bom_seen := True\<rparr>, if c = 0xFEFF then cs else c # cs)))"

text \<open>\<^verbatim>\<open>decoder.decode(value, {stream: true})\<close>\<close>

definition decode :: "utf8_decoder \<Rightarrow> chunk \<Rightarrow> exn + utf8_decoder \<times> jsstring" where
  "decode d v =
     (case decode_bytes d v of
        Inl e \<Rightarrow> Inl e
      | Inr (d1, cps) \<Rightarrow> Inr (serialize d1 cps))"

text \<open>
  \<^verbatim>\<open>encoder.encode(content)\<close>: the UTF-8 encoder of the same standard. The worker
  encodes what the strict decoder produced, with or without the snippet, so the encoder
  never meets a lone surrogate.
\<close>

definition utf8_encode_cp :: "nat \<Rightarrow> byte list" where
  "utf8_encode_cp c =
     (if c \<le> 0x7F then [of_nat c]
      else if c \<le> 0x7FF then [of_nat (0xC0 + c div 64), of_nat (0x80 + c mod 64)]
      else if c \<le> 0xFFFF then
        [of_nat (0xE0 + c div 4096), of_nat (0x80 + (c div 64) mod 64), of_nat (0x80 + c mod 64)]
      else
        [of_nat (0xF0 + c div 262144), of_nat (0x80 + (c div 4096) mod 64),
         of_nat (0x80 + (c div 64) mod 64), of_nat (0x80 + c mod 64)])"

definition encode :: "jsstring \<Rightarrow> chunk" where
  "encode s = concat (map utf8_encode_cp s)"

section \<open>The streams\<close>

text \<open>
  The body of the origin response is the list of the chunks its reader delivers, and the
  way the sequence ends: \<^verbatim>\<open>done\<close>, or a read that rejects. The output sink decides
  for each write, by its number, whether it accepts it, and whether it accepts the close;
  its log keeps what happened, in order.
\<close>

datatype read_end = Done | ReadFails

record sink_env =
  write_ok :: "nat \<Rightarrow> bool"
  close_ok :: bool

datatype sink_event = Wrote chunk | WriteRejected chunk | Closed | CloseRejected

text \<open>The local variables of \<^verbatim>\<open>modifyHtmlStream\<close>, and the log of the writer.\<close>

record stream_state =
  decoder :: utf8_decoder
  firstChunk :: bool
  unsupportedCharset :: bool
  content :: jsstring
  sink_log :: "sink_event list"
  attempts :: nat
  injected :: nat

definition initial_state :: stream_state where
  "initial_state = \<lparr>decoder = new_decoder, firstChunk = True, unsupportedCharset = False,
                     content = [], sink_log = [], attempts = 0, injected = 0\<rparr>"

text \<open>\<^verbatim>\<open>await writer.write(v)\<close>\<close>

definition writer_write :: "sink_env \<Rightarrow> chunk \<Rightarrow> stream_state \<Rightarrow> stream_state completion" where
  "writer_write env v st =
     (if write_ok env (attempts st)
      then Normal (st\<lparr>sink_log := sink_log st @ [Wrote v], attempts := attempts st + 1\<rparr>)
      else Throw WriteError
             (st\<lparr>sink_log := sink_log st @ [WriteRejected v], attempts := attempts st + 1\<rparr>))"

text \<open>\<^verbatim>\<open>await writer.close()\<close>\<close>

definition writer_close :: "sink_env \<Rightarrow> stream_state \<Rightarrow> stream_state completion" where
  "writer_close env st =
     (if close_ok env then Normal (st\<lparr>sink_log := sink_log st @ [Closed]\<rparr>)
      else Throw CloseError (st\<lparr>sink_log := sink_log st @ [CloseRejected]\<rparr>))"

text \<open>The bytes the client receives: the chunks the sink accepted, in order.\<close>

fun wrote :: "sink_event \<Rightarrow> chunk" where
  "wrote (Wrote v) = v"
| "wrote e = []"

definition sink_bytes :: "stream_state \<Rightarrow> byte list" where
  "sink_bytes st = concat (map wrote (sink_log st))"

section \<open>The streaming injector\<close>

text \<open>
  The inner \<^verbatim>\<open>try\<close> block of lines 160 to 178, for the decoded text \<^verbatim>\<open>chunk\<close> of
  the bytes \<^verbatim>\<open>v\<close>. The flag of the result says whether \<^verbatim>\<open>continue\<close> was reached.
  \<^verbatim>\<open>injected\<close> counts the executions of line 176; it is not a variable of the source.
\<close>

definition scan_chunk ::
  "sink_env \<Rightarrow> chunk \<Rightarrow> jsstring \<Rightarrow> stream_state \<Rightarrow> (bool \<times> stream_state) completion"
where
  "scan_chunk env v chunk st =
     (let st1 = (if firstChunk st then st\<lparr>firstChunk := False\<rparr> else st) in
      if firstChunk st \<and> chunkContainsInvalidCharset chunk then
        (case writer_write env v (st1\<lparr>unsupportedCharset := True\<rparr>) of
           Normal st2 \<Rightarrow> Normal (True, st2)
         | Throw e st2 \<Rightarrow> Throw e (False, st2))
      else
        (let st2 = st1\<lparr>content := chunk\<rparr>;
             headPos = indexOf (content st2) MARKER
         in if headPos > - 1 then
              Normal (False, st2\<lparr>content := take (nat headPos) (content st2) @ TAG_MANAGER
                                             @ drop (nat headPos) (content st2),
                                  injected := injected st2 + 1\<rparr>)
            else Normal (False, st2)))"

text \<open>One turn of the loop of lines 138 to 186, after a read that delivered \<^verbatim>\<open>v\<close>.\<close>

definition process_chunk :: "sink_env \<Rightarrow> chunk \<Rightarrow> stream_state \<Rightarrow> stream_state completion" where
  "process_chunk env v st =
     (if unsupportedCharset st then writer_write env v st
      else
        (case decode (decoder st) v of
           Inl e \<Rightarrow> writer_write env v (st\<lparr>unsupportedCharset := True\<rparr>)
         | Inr (d, chunk) \<Rightarrow>
             (case state_of (try_ignore (scan_chunk env v chunk (st\<lparr>decoder := d\<rparr>))) of
                (continued, st2) \<Rightarrow>
                  if continued then Normal st2
                  else if content st2 \<noteq> [] then
                    (case writer_write env (encode (content st2)) st2 of
                       Normal st3 \<Rightarrow> Normal (st3\<lparr>content := []\<rparr>)
                     | Throw e st3 \<Rightarrow> Throw e st3)
                  else Normal st2)))"

text \<open>The loop: it ends when the reader is done, or with the first exception.\<close>

fun read_loop ::
  "sink_env \<Rightarrow> chunk list \<Rightarrow> read_end \<Rightarrow> stream_state \<Rightarrow> stream_state completion"
where
  "read_loop env [] Done st = Normal st"
| "read_loop env [] ReadFails st = Throw ReadError st"
| "read_loop env (v # vs) fin st =
     (case process_chunk env v st of
        Normal st1 \<Rightarrow> read_loop env vs fin st1
      | Throw e st1 \<Rightarrow> Throw e st1)"

text \<open>
  \<^verbatim>\<open>modifyHtmlStream(readable, writable, request, event)\<close>, lines 125 to 196: the
  loop in its \<^verbatim>\<open>try\<close>, then the close in its own.
\<close>

definition modifyHtmlStream :: "sink_env \<Rightarrow> chunk list \<Rightarrow> read_end \<Rightarrow> stream_state completion" where
  "modifyHtmlStream env chunks fin =
     (case try_ignore (read_loop env chunks fin initial_state) of
        Normal st \<Rightarrow> try_ignore (writer_close env st)
      | Throw e st \<Rightarrow> Throw e st)"

section \<open>The inner block when the runtime throws\<close>

text \<open>
  The calls of the inner \<^verbatim>\<open>try\<close> block other than the write are the sniff of line 164
  (\<^verbatim>\<open>chunkContainsInvalidCharset\<close>, three \<^verbatim>\<open>exec\<close> of backtracking regular
  expressions; the comments of lines 81, 82 and 117 call it scanning the chunk), the search
  of line 174 (\<^verbatim>\<open>indexOf\<close>) and the splice of line 176 (\<^verbatim>\<open>slice\<close> and
  \<^verbatim>\<open>join\<close>). As functions on strings they return for every argument, which is how
  \<^verbatim>\<open>scan_chunk\<close> has them. What can interrupt them is the runtime, with a
  \<^verbatim>\<open>RangeError\<close>. A \<^verbatim>\<open>fault\<close> says at which of the three calls, if at any, the
  runtime throws while the chunk at hand is processed.
\<close>

datatype fault = NoFault | SniffThrows | SearchThrows | SpliceThrows

text \<open>
  Lines 160 to 178 again, with the fault. Line 163 has run when the sniff throws, line 172
  has run when the search throws, and the assignment of line 176 has not taken place when
  the splice throws.
\<close>

definition scan_chunk_faulty ::
  "sink_env \<Rightarrow> fault \<Rightarrow> chunk \<Rightarrow> jsstring \<Rightarrow> stream_state \<Rightarrow> (bool \<times> stream_state) completion"
where
  "scan_chunk_faulty env f v chunk st =
     (let st1 = (if firstChunk st then st\<lparr>firstChunk := False\<rparr> else st) in
      if firstChunk st \<and> f = SniffThrows then Throw RangeError (False, st1)
      else if firstChunk st \<and> chunkContainsInvalidCharset chunk then
        (case writer_write env v (st1\<lparr>unsupportedCharset := True\<rparr>) of
           Normal st2 \<Rightarrow> Normal (True, st2)
         | Throw e st2 \<Rightarrow> Throw e (False, st2))
      else
        (let st2 = st1\<lparr>content := chunk\<rparr> in
         if f = SearchThrows then Throw RangeError (False, st2)
         else
           (let headPos = indexOf (content st2) MARKER
            in if headPos > - 1 then
                 (if f = SpliceThrows then Throw RangeError (False, st2)
                  else Normal (False, st2\<lparr>content := take (nat headPos) (content st2) @ TAG_MANAGER
                                                    @ drop (nat headPos) (content st2),
                                         injected := injected st2 + 1\<rparr>))
               else Normal (False, st2))))"

text \<open>One turn of the loop, and the loop, with a fault for each chunk.\<close>

definition process_chunk_faulty ::
  "sink_env \<Rightarrow> fault \<Rightarrow> chunk \<Rightarrow> stream_state \<Rightarrow> stream_state completion"
where
  "process_chunk_faulty env f v st =
     (if unsupportedCharset st then writer_write env v st
      else
        (case decode (decoder st) v of
           Inl e \<Rightarrow> writer_write env v (st\<lparr>unsupportedCharset := True\<rparr>)
         | Inr (d, chunk) \<Rightarrow>
             (case state_of (try_ignore (scan_chunk_faulty env f v chunk (st\<lparr>decoder := d\<rparr>))) of
                (continued, st2) \<Rightarrow>
                  if continued then Normal st2
                  else if content st2 \<noteq> [] then
                    (case writer_write env (encode (content st2)) st2 of
                       Normal st3 \<Rightarrow> Normal (st3\<lparr>content := []\<rparr>)
                     | Throw e st3 \<Rightarrow> Throw e st3)
                  else Normal st2)))"

fun read_loop_faulty ::
  "sink_env \<Rightarrow> (fault \<times> chunk) list \<Rightarrow> read_end \<Rightarrow> stream_state \<Rightarrow> stream_state completion"
where
  "read_loop_faulty env [] Done st = Normal st"
| "read_loop_faulty env [] ReadFails st = Throw ReadError st"
| "read_loop_faulty env ((f, v) # fvs) fin st =
     (case process_chunk_faulty env f v st of
        Normal st1 \<Rightarrow> read_loop_faulty env fvs fin st1
      | Throw e st1 \<Rightarrow> Throw e st1)"

section \<open>The request handler\<close>

text \<open>
  The origin response of \<^verbatim>\<open>fetch(request)\<close>: its status, its
  \<^verbatim>\<open>content-type\<close> header (\<^verbatim>\<open>null\<close> when absent) and its body.
\<close>

record response =
  status :: nat
  contentType :: "jsstring option"
  body :: "chunk list"
  body_end :: read_end

text \<open>
  What the worker answers: the origin response itself, or a new response with the same
  status and headers whose body is what \<^verbatim>\<open>modifyHtmlStream\<close> writes.
\<close>

datatype reply = Original response | Rewritten response "stream_state completion"

text \<open>\<^verbatim>\<open>processHtmlResponse(response, request, event)\<close>, lines 52 to 77.\<close>

definition processHtmlResponse :: "sink_env \<Rightarrow> response \<Rightarrow> jsstring \<Rightarrow> reply" where
  "processHtmlResponse env r ct =
     (case rx_exec header_charset_rx ct of
        Some (m0, g) \<Rightarrow>
          (let charset = toLowerCase g in
           if \<not> array_includes VALID_CHARSETS charset then Original r
           else Rewritten r (modifyHtmlStream env (body r) (body_end r)))
      | None \<Rightarrow> Rewritten r (modifyHtmlStream env (body r) (body_end r)))"

text \<open>
  \<^verbatim>\<open>processRequest(request, event)\<close>, lines 27 to 37. The empty string is falsy,
  as \<^verbatim>\<open>null\<close> is.
\<close>

definition processRequest :: "sink_env \<Rightarrow> response \<Rightarrow> reply" where
  "processRequest env r =
     (if status r = 200 then
        (case contentType r of
           None \<Rightarrow> Original r
         | Some ct \<Rightarrow>
             if ct \<noteq> [] \<and> indexOf ct (js ''text/html'') \<noteq> - 1
             then processHtmlResponse env r ct
             else Original r)
      else Original r)"

text \<open>The bytes of the body the client receives.\<close>

fun reply_bytes :: "reply \<Rightarrow> byte list" where
  "reply_bytes (Original r) = concat (body r)"
| "reply_bytes (Rewritten r c) = sink_bytes (state_of c)"

section \<open>Notions used in the statements\<close>

text \<open>How the loop leaves when the reader has nothing more to deliver.\<close>

fun end_of_stream :: "read_end \<Rightarrow> stream_state \<Rightarrow> stream_state completion" where
  "end_of_stream Done st = Normal st"
| "end_of_stream ReadFails st = Throw ReadError st"

text \<open>The events of the log that are attempts to close the sink.\<close>

fun is_close :: "sink_event \<Rightarrow> bool" where
  "is_close Closed = True"
| "is_close CloseRejected = True"
| "is_close e = False"

text \<open>
  What lines 174 to 177 make of the text of a chunk: the snippet in front of the first
  \<^verbatim>\<open></head>\<close>, when there is one.
\<close>

definition inject :: "jsstring \<Rightarrow> jsstring" where
  "inject s =
     (case find_first MARKER s of None \<Rightarrow> s | Some k \<Rightarrow> take k s @ TAG_MANAGER @ drop k s)"

text \<open>The bytes of an ASCII string.\<close>

definition ascii :: "string \<Rightarrow> chunk" where
  "ascii s = map of_char s"

text \<open>The Unicode scalar values: the code points that are not surrogates.\<close>

definition scalar :: "nat \<Rightarrow> bool" where
  "scalar c = (c < 0xD800 \<or> (0xDFFF < c \<and> c \<le> 0x10FFFF))"

text \<open>The bytes of the marker.\<close>

definition MARKER_BYTES :: "byte list" where
  "MARKER_BYTES = ascii ''</head>''"

text \<open>A text without its byte order mark, if it starts with one.\<close>

definition strip_bom :: "jsstring \<Rightarrow> jsstring" where
  "strip_bom t = (case t of [] \<Rightarrow> [] | c # cs \<Rightarrow> if c = 0xFEFF then cs else c # cs)"

text \<open>
  The texts the decoder yields for the chunks of a body, one after the other, and the
  decoder at the end; nothing when a decode throws.
\<close>

fun chunk_texts :: "utf8_decoder \<Rightarrow> chunk list \<Rightarrow> (utf8_decoder \<times> jsstring list) option" where
  "chunk_texts d [] = Some (d, [])"
| "chunk_texts d (v # vs) =
     (case decode d v of
        Inl e \<Rightarrow> None
      | Inr (d1, s) \<Rightarrow>
          (case chunk_texts d1 vs of None \<Rightarrow> None | Some (d2, ss) \<Rightarrow> Some (d2, s # ss)))"

text \<open>The first chunk decodes to a text that \<^verbatim>\<open>chunkContainsInvalidCharset\<close> flags.\<close>

definition first_chunk_flagged :: "chunk list \<Rightarrow> bool" where
  "first_chunk_flagged cs =
     (case cs of
        [] \<Rightarrow> False
      | v # vs \<Rightarrow>
          (case decode new_decoder v of
             Inl e \<Rightarrow> False
           | Inr (d, s) \<Rightarrow> chunkContainsInvalidCharset s))"

text \<open>
  No \<^verbatim>\<open><\<close> of the text, its last character apart, is followed by white space or by
  the letter m: no tag of the text can be the beginning of a \<^verbatim>\<open>meta\<close> tag.
\<close>

fun no_meta_opens :: "jsstring \<Rightarrow> bool" where
  "no_meta_opens [] = True"
| "no_meta_opens [c] = True"
| "no_meta_opens (c # d # s) =
     ((c \<noteq> 0x3C \<or> (\<not> is_space d \<and> lower_cp d \<noteq> 0x6D)) \<and> no_meta_opens (d # s))"

text \<open>The positions at which a pattern occurs in a list.\<close>

definition occurrences :: "'a list \<Rightarrow> 'a list \<Rightarrow> nat list" where
  "occurrences pat s = filter (\<lambda>j. prefix pat (drop j s)) [0..<Suc (length s)]"

text \<open>
  A chunk boundary, with the bytes \<^verbatim>\<open>p\<close> before it and the bytes \<^verbatim>\<open>s\<close> after it,
  splits the marker when a proper, non-empty beginning of the marker ends \<^verbatim>\<open>p\<close> and
  the rest of the marker starts \<^verbatim>\<open>s\<close>. In \<^verbatim>\<open>never_split\<close> the first argument holds the
  bytes of the chunks already passed.
\<close>

definition split_at :: "byte list \<Rightarrow> byte list \<Rightarrow> bool" where
  "split_at p s =
     list_ex (\<lambda>j. suffix (take j MARKER_BYTES) p \<and> prefix (drop j MARKER_BYTES) s)
       [1..<length MARKER_BYTES]"

fun never_split :: "byte list \<Rightarrow> chunk list \<Rightarrow> bool" where
  "never_split p [] = True"
| "never_split p (c # cs) = (\<not> split_at p (concat (c # cs)) \<and> never_split (p @ c) cs)"

definition marker_never_split :: "chunk list \<Rightarrow> bool" where
  "marker_never_split cs = never_split [] cs"

section \<open>Unfolding the model on concrete inputs\<close>

lemmas run_defs = modifyHtmlStream_def initial_state_def process_chunk_def scan_chunk_def
  writer_write_def writer_close_def sink_bytes_def

lemmas codec_defs = decode_def utf8_handler_def new_decoder_def serialize_def encode_def
  utf8_encode_cp_def

lemmas sniff_defs = chunkContainsInvalidCharset_def meta_charset_rx_def meta_content_type_rx_def
  meta_inner_rx_def header_charset_rx_def lit_ci_def is_ch_def is_ci_def is_space_def is_quote_def
  not_gt_def lower_cp_def toLowerCase_def array_includes_def VALID_CHARSETS_def rx_result_def

lemmas string_defs = indexOf_def MARKER_def js_def


section \<open>The loop\<close>

lemma read_loop_Nil: "read_loop env [] fin st = end_of_stream fin st"
  by (cases fin) simp_all

lemma state_of_end_of_stream [simp]: "state_of (end_of_stream fin st) = st"
  by (cases fin) simp_all

lemma read_loop_append:
  "read_loop env (xs @ ys) fin st =
     (case read_loop env xs Done st of
        Normal st1 \<Rightarrow> read_loop env ys fin st1
      | Throw e st1 \<Rightarrow> Throw e st1)"
  by (induction xs arbitrary: st) (auto split: completion.splits)

text \<open>In passthrough mode, with a sink that accepts every write, each chunk is written raw.\<close>

lemma passthrough_loop:
  "unsupportedCharset st \<Longrightarrow> \<forall>k. write_ok env k \<Longrightarrow>
   read_loop env vs fin st =
     end_of_stream fin (st\<lparr>sink_log := sink_log st @ map Wrote vs,
                            attempts := attempts st + length vs\<rparr>)"
proof (induction vs arbitrary: st)
  case Nil
  then show ?case by (simp add: read_loop_Nil)
next
  case (Cons v vs)
  let ?st1 = "st\<lparr>sink_log := sink_log st @ [Wrote v], attempts := attempts st + 1\<rparr>"
  have "process_chunk env v st = Normal ?st1"
    using Cons.prems by (simp add: process_chunk_def writer_write_def)
  then show ?case using Cons.prems Cons.IH [of ?st1]
    by simp
qed

lemma try_ignore_Normal: "try_ignore c = Normal (state_of c)"
  by (cases c) simp_all

lemma modifyHtmlStream_eq:
  "modifyHtmlStream env chunks fin =
     Normal (state_of (writer_close env (state_of (read_loop env chunks fin initial_state))))"
  by (simp add: modifyHtmlStream_def try_ignore_Normal)

lemma sink_bytes_close [simp]:
  "sink_bytes (state_of (writer_close env st)) = sink_bytes st"
  by (simp add: writer_close_def sink_bytes_def)

lemma sink_bytes_Wrote: "sink_log st = map Wrote vs \<Longrightarrow> sink_bytes st = concat vs"
  by (simp add: sink_bytes_def comp_def)

section \<open>Searching a string\<close>

lemma find_first_None: "find_first pat s = None \<longleftrightarrow> \<not> sublist pat s"
proof (induction s)
  case Nil
  then show ?case by simp
next
  case (Cons c cs)
  then show ?case by (auto simp: sublist_Cons_right)
qed

lemma find_first_Some:
  "find_first pat s = Some k \<Longrightarrow> k \<le> length s \<and> prefix pat (drop k s)"
proof (induction s arbitrary: k)
  case Nil
  then show ?case by (auto split: if_splits)
next
  case (Cons c cs)
  then show ?case by (auto split: if_splits)
qed

lemma indexOf_absent: "indexOf s pat = - 1 \<longleftrightarrow> \<not> sublist pat s"
  by (simp add: indexOf_def find_first_None [symmetric] split: option.splits)

section \<open>Responses that are not rewritten\<close>

text \<open>
  C6. A response whose status is not 200, or that has no \<^verbatim>\<open>content-type\<close> header,
  or whose \<^verbatim>\<open>content-type\<close> does not contain \<^verbatim>\<open>text/html\<close>, is answered with
  the origin response itself: the rewriting path is not entered and the bytes of the body
  are those of the origin.
\<close>

theorem non_html_response_unmodified:
  assumes "status r \<noteq> 200 \<or> contentType r = None
           \<or> (\<exists>ct. contentType r = Some ct \<and> \<not> sublist (js ''text/html'') ct)"
  shows "processRequest env r = Original r
         \<and> reply_bytes (processRequest env r) = concat (body r)"
  using assms by (auto simp: processRequest_def indexOf_absent)

theorem non_html_response_unmodified_witness:
  "status \<lparr>status = 404, contentType = Some (js ''text/html''), body = [[0x61, 0x62], [0x63]],
            body_end = Done\<rparr> \<noteq> 200
   \<and> processRequest \<lparr>write_ok = (\<lambda>k. True), close_ok = True\<rparr>
        \<lparr>status = 404, contentType = Some (js ''text/html''), body = [[0x61, 0x62], [0x63]],
         body_end = Done\<rparr>
       = Original \<lparr>status = 404, contentType = Some (js ''text/html''),
                   body = [[0x61, 0x62], [0x63]], body_end = Done\<rparr>
   \<and> reply_bytes (processRequest \<lparr>write_ok = (\<lambda>k. True), close_ok = True\<rparr>
        \<lparr>status = 404, contentType = Some (js ''text/html''), body = [[0x61, 0x62], [0x63]],
         body_end = Done\<rparr>) = [0x61, 0x62, 0x63]"
  using non_html_response_unmodified
    [of "\<lparr>status = 404, contentType = Some (js ''text/html''), body = [[0x61, 0x62], [0x63]],
          body_end = Done\<rparr>" "\<lparr>write_ok = (\<lambda>k. True), close_ok = True\<rparr>"]
  by simp

section \<open>The sink is always closed\<close>

lemma writer_write_no_close:
  "filter is_close (sink_log (state_of (writer_write env v st))) = filter is_close (sink_log st)"
  by (simp add: writer_write_def)

lemma scan_chunk_no_close:
  "filter is_close (sink_log (snd (state_of (scan_chunk env v chunk st))))
     = filter is_close (sink_log st)"
  by (simp add: scan_chunk_def writer_write_def Let_def)

lemma process_chunk_no_close:
  "filter is_close (sink_log (state_of (process_chunk env v st))) = filter is_close (sink_log st)"
proof (cases "unsupportedCharset st")
  case True
  then show ?thesis by (simp add: process_chunk_def writer_write_no_close)
next
  case False
  show ?thesis
  proof (cases "decode (decoder st) v")
    case (Inl e)
    then show ?thesis
      using False writer_write_no_close [of env v "st\<lparr>unsupportedCharset := True\<rparr>"]
      by (simp add: process_chunk_def)
  next
    case (Inr r)
    obtain d chunk where r: "r = (d, chunk)" by (cases r)
    obtain continued st2
      where s: "state_of (try_ignore (scan_chunk env v chunk (st\<lparr>decoder := d\<rparr>))) = (continued, st2)"
      by (cases "state_of (try_ignore (scan_chunk env v chunk (st\<lparr>decoder := d\<rparr>)))")
    have "filter is_close (sink_log st2) = filter is_close (sink_log st)"
      using scan_chunk_no_close [of env v chunk "st\<lparr>decoder := d\<rparr>"] s
      by (simp add: try_ignore_Normal)
    then show ?thesis
      using False Inr r s writer_write_no_close [of env "encode (content st2)" st2]
      by (cases "writer_write env (encode (content st2)) st2") (simp_all add: process_chunk_def)
  qed
qed

lemma read_loop_no_close:
  "filter is_close (sink_log (state_of (read_loop env vs fin st))) = filter is_close (sink_log st)"
proof (induction vs arbitrary: st)
  case Nil
  then show ?case by (simp add: read_loop_Nil)
next
  case (Cons v vs)
  show ?case
  proof (cases "process_chunk env v st")
    case (Normal st1)
    then show ?thesis using Cons [of st1] process_chunk_no_close [of env v st] by simp
  next
    case (Throw e st1)
    then show ?thesis using process_chunk_no_close [of env v st] by simp
  qed
qed

text \<open>
  C8. Whatever the chunks are, however the reads end and whatever the sink rejects,
  \<^verbatim>\<open>modifyHtmlStream\<close> completes normally: no exception leaves it, also when the
  close itself is rejected. The close of the sink is attempted exactly once, and it is
  the last thing that happens to the sink.
\<close>

theorem sink_always_closed:
  "\<exists>st. modifyHtmlStream env chunks fin = Normal st
        \<and> filter is_close (sink_log st) = [if close_ok env then Closed else CloseRejected]
        \<and> last (sink_log st) = (if close_ok env then Closed else CloseRejected)"
  using read_loop_no_close [of env chunks fin initial_state]
  by (simp add: modifyHtmlStream_eq writer_close_def initial_state_def)

theorem sink_always_closed_witness:
  "\<exists>st. modifyHtmlStream \<lparr>write_ok = (\<lambda>k. False), close_ok = False\<rparr> [[0x61], [0xFF]] ReadFails
           = Normal st
        \<and> filter is_close (sink_log st) = [CloseRejected]
        \<and> last (sink_log st) = CloseRejected"
  using sink_always_closed
    [of "\<lparr>write_ok = (\<lambda>k. False), close_ok = False\<rparr>" "[[0x61], [0xFF]]" ReadFails]
  by simp

section \<open>One turn of the loop, case by case\<close>

lemma step_passthrough:
  "unsupportedCharset st \<Longrightarrow> process_chunk env v st = writer_write env v st"
  by (simp add: process_chunk_def)

lemma step_decode_fails:
  "\<not> unsupportedCharset st \<Longrightarrow> decode (decoder st) v = Inl e \<Longrightarrow>
   process_chunk env v st = writer_write env v (st\<lparr>unsupportedCharset := True\<rparr>)"
  by (simp add: process_chunk_def)

lemma step_flagged:
  "\<not> unsupportedCharset st \<Longrightarrow> decode (decoder st) v = Inr (d, s) \<Longrightarrow> firstChunk st \<Longrightarrow>
   chunkContainsInvalidCharset s \<Longrightarrow> content st = [] \<Longrightarrow>
   process_chunk env v st =
     Normal (state_of (writer_write env v
       (st\<lparr>decoder := d, firstChunk := False, unsupportedCharset := True\<rparr>)))"
  by (simp add: process_chunk_def scan_chunk_def writer_write_def)

lemma firstChunk_reset:
  "(if firstChunk st then st\<lparr>firstChunk := False\<rparr> else st) = st\<lparr>firstChunk := False\<rparr>"
  by (cases st) simp

lemma scan_chunk_scanning:
  "\<not> (firstChunk st \<and> chunkContainsInvalidCharset s) \<Longrightarrow>
   scan_chunk env v s st =
     Normal (False, st\<lparr>firstChunk := False, content := inject s,
                        injected := injected st + (if sublist MARKER s then 1 else 0)\<rparr>)"
proof -
  have sub: "sublist MARKER s \<longleftrightarrow> find_first MARKER s \<noteq> None"
    by (simp add: find_first_None)
  assume "\<not> (firstChunk st \<and> chunkContainsInvalidCharset s)"
  then show ?thesis
    by (cases "find_first MARKER s")
       (auto simp: scan_chunk_def firstChunk_reset inject_def indexOf_def Let_def sub)
qed

lemma step_scan:
  assumes "\<not> unsupportedCharset st" "decode (decoder st) v = Inr (d, s)"
    and "\<not> (firstChunk st \<and> chunkContainsInvalidCharset s)"
  shows "process_chunk env v st =
     (if inject s \<noteq> [] then
        (case writer_write env (encode (inject s))
                (st\<lparr>decoder := d, firstChunk := False, content := inject s,
                    injected := injected st + (if sublist MARKER s then 1 else 0)\<rparr>) of
           Normal st3 \<Rightarrow> Normal (st3\<lparr>content := []\<rparr>)
         | Throw e st3 \<Rightarrow> Throw e st3)
      else Normal (st\<lparr>decoder := d, firstChunk := False, content := [],
                      injected := injected st + (if sublist MARKER s then 1 else 0)\<rparr>))"
proof -
  have "scan_chunk env v s (st\<lparr>decoder := d\<rparr>) =
     Normal (False, st\<lparr>decoder := d, firstChunk := False, content := inject s,
                        injected := injected st + (if sublist MARKER s then 1 else 0)\<rparr>)"
    using assms(3) scan_chunk_scanning [of "st\<lparr>decoder := d\<rparr>" s env v] by simp
  then show ?thesis using assms(1,2) by (simp add: process_chunk_def)
qed


lemma process_chunk_content:
  assumes "content st = []" "process_chunk env v st = Normal st1"
  shows "content st1 = []"
proof (cases "unsupportedCharset st")
  case True
  then show ?thesis using assms by (auto simp: step_passthrough writer_write_def split: if_splits)
next
  case False
  show ?thesis
  proof (cases "decode (decoder st) v")
    case (Inl e)
    then show ?thesis using False assms
      by (auto simp: step_decode_fails writer_write_def split: if_splits)
  next
    case (Inr r)
    obtain d s where r: "r = (d, s)" by (cases r)
    show ?thesis
    proof (cases "firstChunk st \<and> chunkContainsInvalidCharset s")
      case True
      then show ?thesis using False Inr r assms
        by (auto simp: step_flagged writer_write_def split: if_splits)
    next
      case flagged: False
      show ?thesis using assms(2) unfolding step_scan [OF False Inr [unfolded r] flagged]
        by (auto simp: writer_write_def split: if_splits)
    qed
  qed
qed

lemma read_loop_content:
  "content st = [] \<Longrightarrow> read_loop env vs Done st = Normal st1 \<Longrightarrow> content st1 = []"
proof (induction vs arbitrary: st)
  case Nil
  then show ?case by simp
next
  case (Cons v vs)
  then show ?case
    by (cases "process_chunk env v st") (auto dest: process_chunk_content)
qed

lemma reachable_content:
  "read_loop env vs Done initial_state = Normal st \<Longrightarrow> content st = []"
  by (rule read_loop_content [of initial_state]) (simp_all add: initial_state_def)

section \<open>The decoder across chunk boundaries\<close>

lemma decode_bytes_append:
  "decode_bytes d (xs @ ys) =
     (case decode_bytes d xs of
        Inl e \<Rightarrow> Inl e
      | Inr (d1, s1) \<Rightarrow>
          (case decode_bytes d1 ys of
             Inl e \<Rightarrow> Inl e
           | Inr (d2, s2) \<Rightarrow> Inr (d2, s1 @ s2)))"
  by (induction xs arbitrary: d) (auto split: sum.splits option.splits)

lemma utf8_handler_bom:
  "utf8_handler (d\<lparr>bom_seen := f\<rparr>) b =
     (case utf8_handler d b of Inl e \<Rightarrow> Inl e | Inr (d1, out) \<Rightarrow> Inr (d1\<lparr>bom_seen := f\<rparr>, out))"
  by (simp add: utf8_handler_def Let_def)

lemma decode_bytes_bom:
  "decode_bytes (d\<lparr>bom_seen := f\<rparr>) bs =
     (case decode_bytes d bs of Inl e \<Rightarrow> Inl e | Inr (d1, s) \<Rightarrow> Inr (d1\<lparr>bom_seen := f\<rparr>, s))"
  by (induction bs arbitrary: d) (auto simp: utf8_handler_bom split: sum.splits option.splits)

lemma utf8_handler_keeps_bom: "utf8_handler d b = Inr (d1, out) \<Longrightarrow> bom_seen d1 = bom_seen d"
  by (auto simp: utf8_handler_def Let_def split: if_splits)

lemma decode_bytes_keeps_bom: "decode_bytes d bs = Inr (d1, s) \<Longrightarrow> bom_seen d1 = bom_seen d"
proof (induction bs arbitrary: d s)
  case Nil
  then show ?case by simp
next
  case (Cons b bs)
  from Cons.prems obtain da out sa
    where h: "utf8_handler d b = Inr (da, out)" and r: "decode_bytes da bs = Inr (d1, sa)"
    by (auto split: sum.splits)
  from Cons.IH [OF r] utf8_handler_keeps_bom [OF h] show ?case by simp
qed

lemma serialize_eq:
  "serialize d s = (if bom_seen d \<or> s = [] then d else d\<lparr>bom_seen := True\<rparr>,
                    if \<not> bom_seen d \<and> s \<noteq> [] \<and> hd s = 0xFEFF then tl s else s)"
  by (cases s) (simp_all add: serialize_def)

lemma decode_append:
  "decode d (xs @ ys) =
     (case decode d xs of
        Inl e \<Rightarrow> Inl e
      | Inr (d1, s1) \<Rightarrow>
          (case decode d1 ys of
             Inl e \<Rightarrow> Inl e
           | Inr (d2, s2) \<Rightarrow> Inr (d2, s1 @ s2)))"
proof (cases "decode_bytes d xs")
  case (Inl e)
  then show ?thesis by (simp add: decode_def decode_bytes_append)
next
  case (Inr r)
  obtain d1 s1 where r: "r = (d1, s1)" by (cases r)
  have b1: "bom_seen d1 = bom_seen d" using Inr r by (auto dest: decode_bytes_keeps_bom)
  show ?thesis
  proof (cases "decode_bytes d1 ys")
    case (Inl e)
    then show ?thesis using Inr r
      by (simp add: decode_def decode_bytes_append serialize_eq decode_bytes_bom)
  next
    case ys: (Inr r2)
    obtain d2 s2 where r2: "r2 = (d2, s2)" by (cases r2)
    have b2: "bom_seen d2 = bom_seen d1" using ys r2 by (auto dest: decode_bytes_keeps_bom)
    show ?thesis using Inr r ys r2 b1 b2
      by (cases s1) (auto simp: decode_def decode_bytes_append serialize_eq decode_bytes_bom)
  qed
qed


section \<open>Decode failures\<close>

lemma decode_failure_loop:
  assumes "\<forall>k. write_ok env k"
    and "read_loop env pre Done st0 = Normal st"
    and "\<not> unsupportedCharset st"
    and "decode (decoder st) v = Inl e"
  shows "read_loop env (pre @ v # post) fin st0 =
           end_of_stream fin (st\<lparr>unsupportedCharset := True,
              sink_log := sink_log st @ map Wrote (v # post),
              attempts := attempts st + 1 + length post\<rparr>)"
proof -
  let ?st1 = "st\<lparr>unsupportedCharset := True,
                   sink_log := sink_log st @ [Wrote v], attempts := attempts st + 1\<rparr>"
  have step: "process_chunk env v st = Normal ?st1"
    using assms by (simp add: step_decode_fails writer_write_def)
  have "read_loop env (pre @ v # post) fin st0 = read_loop env post fin ?st1"
    using assms(2) step by (simp add: read_loop_append)
  also have "\<dots> = end_of_stream fin (?st1\<lparr>sink_log := sink_log ?st1 @ map Wrote post,
                            attempts := attempts ?st1 + length post\<rparr>)"
    using assms(1) by (intro passthrough_loop) simp_all
  finally show ?thesis by simp
qed




text \<open>
  In general: let a chunk be \<^verbatim>\<open>c\<close> followed by bytes \<^verbatim>\<open>p\<close> that the decoder takes
  without yielding text, and let the decode of the next chunk fail. Then the output is
  what it is when the stream ends after \<^verbatim>\<open>c\<close>, followed by the failing chunk and the
  later ones: the bytes of \<^verbatim>\<open>p\<close> are in no write.
\<close>

lemma held_bytes_in_no_write:
  assumes "\<forall>k. write_ok env k"
    and "read_loop env cs Done initial_state = Normal st"
    and "\<not> unsupportedCharset st"
    and "decode (decoder st) c = Inr (d, s)"
    and "\<not> (firstChunk st \<and> chunkContainsInvalidCharset s)"
    and "decode d p = Inr (d', [])"
    and "decode d' v = Inl e"
  shows "sink_bytes (state_of (modifyHtmlStream env (cs @ (c @ p) # v # post) fin))
           = sink_bytes (state_of (modifyHtmlStream env (cs @ [c]) Done)) @ v @ concat post"
proof -
  define W where "W x =
     (if inject s \<noteq> [] then
        st\<lparr>decoder := x, firstChunk := False, content := [],
            injected := injected st + (if sublist MARKER s then 1 else 0),
            sink_log := sink_log st @ [Wrote (encode (inject s))], attempts := attempts st + 1\<rparr>
      else st\<lparr>decoder := x, firstChunk := False, content := [],
              injected := injected st + (if sublist MARKER s then 1 else 0)\<rparr>)" for x
  have w: "write_ok env k" for k using assms(1) by simp
  have cp: "decode (decoder st) (c @ p) = Inr (d', s)"
    using assms(4,6) by (simp add: decode_append)
  have "process_chunk env (c @ p) st = Normal (W d')"
    unfolding step_scan [OF assms(3) cp assms(5)] W_def using w by (simp add: writer_write_def)
  then have r1: "read_loop env (cs @ [c @ p]) Done initial_state = Normal (W d')"
    using assms(2) by (simp add: read_loop_append)
  have "process_chunk env c st = Normal (W d)"
    unfolding step_scan [OF assms(3,4,5)] W_def using w by (simp add: writer_write_def)
  then have r2: "read_loop env (cs @ [c]) Done initial_state = Normal (W d)"
    using assms(2) by (simp add: read_loop_append)
  have u: "\<not> unsupportedCharset (W d')" using assms(3) by (simp add: W_def)
  have f: "decode (decoder (W d')) v = Inl e" using assms(7) by (simp add: W_def)
  have "sink_bytes (state_of (modifyHtmlStream env ((cs @ [c @ p]) @ v # post) fin))
          = sink_bytes (W d') @ v @ concat post"
    unfolding modifyHtmlStream_eq decode_failure_loop [OF assms(1) r1 u f]
    by (simp add: sink_bytes_def comp_def writer_close_def)
  moreover have "sink_bytes (state_of (modifyHtmlStream env (cs @ [c]) Done)) = sink_bytes (W d)"
    unfolding modifyHtmlStream_eq r2 by simp
  moreover have "sink_bytes (W d') = sink_bytes (W d)" by (simp add: W_def sink_bytes_def)
  ultimately show ?thesis by simp
qed

section \<open>Unsupported charsets\<close>

lemma first_chunk_flagged_loop:
  assumes "\<forall>k. write_ok env k"
    and "decode new_decoder v = Inr (d, str)"
    and "chunkContainsInvalidCharset str"
  shows "sink_log (state_of (read_loop env (v # vs) fin initial_state)) = map Wrote (v # vs)"
proof -
  let ?st1 = "initial_state\<lparr>decoder := d, firstChunk := False, unsupportedCharset := True,
                sink_log := [Wrote v], attempts := 1\<rparr>"
  have step: "process_chunk env v initial_state = Normal ?st1"
    using assms by (simp add: process_chunk_def scan_chunk_def writer_write_def initial_state_def)
  have "read_loop env (v # vs) fin initial_state = read_loop env vs fin ?st1"
    using step by simp
  also have "\<dots> = end_of_stream fin (?st1\<lparr>sink_log := sink_log ?st1 @ map Wrote vs,
                            attempts := attempts ?st1 + length vs\<rparr>)"
    using assms(1) by (intro passthrough_loop) simp_all
  finally show ?thesis by simp
qed





section \<open>What the sniff does flag\<close>

text \<open>
  The tag of the claim, \<^verbatim>\<open><meta charset="X">\<close> with either quote, is flagged whenever
  \<^verbatim>\<open>X\<close> is not a supported name and holds no quote and no equals sign, whatever
  follows the tag, provided that nothing before it can open a \<^verbatim>\<open>meta\<close> tag. The
  proof follows the backtracking of the pattern of line 89: the greedy \<^verbatim>\<open>[^>]+\<close>
  first runs over the whole tag and finds no second \<^verbatim>\<open>charset=\<close> on its way back.
\<close>

lemma lit_ci_Nil: "lit_ci [] @ R = R"
  by (simp add: lit_ci_def)

lemma lit_ci_step:
  "rx_match (lit_ci (a # l) @ R) (c # s) cap =
     (if lower_cp c = of_char a then rx_match (lit_ci l @ R) s cap else None)"
  by (simp add: lit_ci_def is_ci_def)

lemma equals_sign_missing:
  "0x3D \<notin> set u \<Longrightarrow>
   rx_match (Star is_space # Chr (is_ch CHR ''='') # R) (u @ 0x3E # w) cap = None"
  by (induction u) (simp_all add: is_space_def is_ch_def)

lemma literal_then_equals_missing:
  "0x3D \<notin> set u \<Longrightarrow> \<forall>a\<in>set l. of_char a \<noteq> (0x3E :: nat) \<Longrightarrow>
   rx_match (lit_ci l @ Star is_space # Chr (is_ch CHR ''='') # R) (u @ 0x3E # w) cap = None"
proof (induction l arbitrary: u)
  case Nil
  then show ?case by (simp add: lit_ci_Nil equals_sign_missing)
next
  case (Cons a l)
  show ?case
  proof (cases u)
    case Nil
    then show ?thesis using Cons.prems by (simp add: lit_ci_step lower_cp_def)
  next
    case (Cons c u')
    then show ?thesis using Cons.prems Cons.IH [of u'] by (simp add: lit_ci_step)
  qed
qed

lemma no_later_charset:
  assumes "0x3D \<notin> set u"
  shows "rx_match (Star not_gt # lit_ci ''charset'' @ Star is_space # Chr (is_ch CHR ''='') # R)
           (u @ 0x3E # w) cap = None"
  using assms
proof (induction u)
  case Nil
  have "rx_match (lit_ci ''charset'' @ Star is_space # Chr (is_ch CHR ''='') # R)
          ([] @ 0x3E # w) cap = None"
    by (rule literal_then_equals_missing) simp_all
  then show ?case by (simp add: not_gt_def)
next
  case (Cons c u)
  have "rx_match (lit_ci ''charset'' @ Star is_space # Chr (is_ch CHR ''='') # R)
          ((c # u) @ 0x3E # w) cap = None"
    using Cons.prems by (intro literal_then_equals_missing) simp_all
  then show ?case using Cons by simp
qed

lemma quoted_value_is_group:
  assumes "\<forall>c\<in>set name. \<not> is_quote c" and "is_quote q"
  shows "rx_match [Star (\<lambda>x. \<not> is_quote x), GroupClose, Chr is_quote, Star not_gt,
                   Chr (is_ch CHR ''>'')] (name @ q # 0x3E # post) (a, b)
           = Some (post, a, q # 0x3E # post)"
  using assms by (induction name) (simp_all add: not_gt_def is_ch_def)

lemma meta_charset_match:
  assumes "is_quote q" and "is_quote q'"
    and "\<forall>c\<in>set name. \<not> is_quote c \<and> c \<noteq> 0x3D"
  shows "rx_match meta_charset_rx (js ''<meta charset='' @ q # name @ q' # 0x3E # post) ([], [])
           = Some (post, name @ q' # 0x3E # post, q' # 0x3E # post)"
proof -
  have split: "name @ q' # 0x3E # post = (name @ [q']) @ 0x3E # post" by simp
  have "q' \<noteq> 0x3D" using assms(2) by (auto simp: is_quote_def)
  moreover have "0x3D \<notin> set name" using assms(3) by blast
  ultimately have "0x3D \<notin> set (name @ [q'])" by simp
  then have later: "rx_match (Star not_gt # lit_ci ''charset'' @ Star is_space # Chr (is_ch CHR ''='') # R)
           (name @ q' # 0x3E # post) cap = None" for R cap
    unfolding split by (rule no_later_charset)
  have grp: "rx_match [Star (\<lambda>x. \<not> is_quote x), GroupClose, Chr is_quote, Star not_gt,
                   Chr (is_ch CHR ''>'')] (name @ q' # 0x3E # post) (a, b)
           = Some (post, a, q' # 0x3E # post)" for a b
    using assms(2,3) by (intro quoted_value_is_group) simp_all
  have quotes: "is_quote 0x27" "is_quote 0x22" by (simp_all add: is_quote_def)
  from assms(1) consider "q = 0x27" | "q = 0x22" by (auto simp: is_quote_def)
  then show ?thesis
  proof cases
    case 1
    show ?thesis unfolding 1
      by (simp add: meta_charset_rx_def js_def lit_ci_step lit_ci_Nil lower_cp_def is_ch_def
            is_space_def not_gt_def quotes later grp)
  next
    case 2
    show ?thesis unfolding 2
      by (simp add: meta_charset_rx_def js_def lit_ci_step lit_ci_Nil lower_cp_def is_ch_def
            is_space_def not_gt_def quotes later grp)
  qed
qed

lemma no_match_before:
  "no_meta_opens pre \<Longrightarrow>
   rx_exec meta_charset_rx (pre @ 0x3C # rest) = rx_exec meta_charset_rx (0x3C # rest)"
proof (induction pre rule: no_meta_opens.induct)
  case 1
  then show ?case by simp
next
  case (2 c)
  then show ?case
    by (simp add: meta_charset_rx_def lit_ci_step is_ch_def is_space_def lower_cp_def)
next
  case (3 c d s)
  then show ?case
    by (auto simp: meta_charset_rx_def lit_ci_step is_ch_def)
qed

lemma quoted_meta_charset_flagged:
  assumes "no_meta_opens pre" and "is_quote q" and "is_quote q'"
    and "\<forall>c\<in>set name. \<not> is_quote c \<and> c \<noteq> 0x3D"
    and "\<not> array_includes VALID_CHARSETS (toLowerCase name)"
  shows "chunkContainsInvalidCharset (pre @ js ''<meta charset='' @ q # name @ q' # 0x3E # post)"
proof -
  let ?tag = "js ''<meta charset='' @ q # name @ q' # 0x3E # post"
  obtain rest where tag: "?tag = 0x3C # rest" by (simp add: js_def)
  have "rx_exec meta_charset_rx (pre @ ?tag) = rx_exec meta_charset_rx ?tag"
    unfolding tag by (rule no_match_before [OF assms(1)])
  also have "\<dots> = Some (rx_result ?tag (post, name @ q' # 0x3E # post, q' # 0x3E # post))"
    using meta_charset_match [OF assms(2,3,4), of post] unfolding tag by simp
  finally have "rx_exec meta_charset_rx (pre @ ?tag)
                  = Some (take (length ?tag - length post) ?tag, name)"
    by (simp add: rx_result_def)
  then show ?thesis using assms(5)
    by (simp add: chunkContainsInvalidCharset_def del: append_assoc)
qed

lemma quoted_meta_charset_passthrough:
  assumes "\<forall>k. write_ok env k"
    and "decode new_decoder v
           = Inr (d, pre @ js ''<meta charset='' @ q # name @ q' # 0x3E # post)"
    and "no_meta_opens pre" and "is_quote q" and "is_quote q'"
    and "\<forall>c\<in>set name. \<not> is_quote c \<and> c \<noteq> 0x3D"
    and "\<not> array_includes VALID_CHARSETS (toLowerCase name)"
  shows "sink_bytes (state_of (modifyHtmlStream env (v # vs) fin)) = concat (v # vs)"
proof -
  have "chunkContainsInvalidCharset (pre @ js ''<meta charset='' @ q # name @ q' # 0x3E # post)"
    using assms(3-7) by (rule quoted_meta_charset_flagged)
  then have "sink_log (state_of (read_loop env (v # vs) fin initial_state)) = map Wrote (v # vs)"
    by (rule first_chunk_flagged_loop [OF assms(1,2)])
  then have "sink_bytes (state_of (read_loop env (v # vs) fin initial_state)) = concat (v # vs)"
    by (rule sink_bytes_Wrote)
  then show ?thesis by (simp add: modifyHtmlStream_eq del: read_loop.simps)
qed

section \<open>Exceptions in the scan step\<close>

lemma scan_chunk_faulty_NoFault:
  "scan_chunk_faulty env NoFault v chunk st = scan_chunk env v chunk st"
  by (simp add: scan_chunk_faulty_def scan_chunk_def Let_def)

lemma process_chunk_faulty_NoFault:
  "process_chunk_faulty env NoFault v st = process_chunk env v st"
  by (simp add: process_chunk_faulty_def process_chunk_def scan_chunk_faulty_NoFault
        split: sum.splits)

lemma read_loop_faulty_NoFault:
  "read_loop_faulty env (map (Pair NoFault) vs) fin st = read_loop env vs fin st"
proof (induction vs arbitrary: st)
  case Nil
  then show ?case by (cases fin) simp_all
next
  case (Cons v vs)
  then show ?case by (simp add: process_chunk_faulty_NoFault split: completion.splits)
qed






section \<open>The end of the stream\<close>

lemma process_chunk_stays_passthrough:
  "unsupportedCharset st \<Longrightarrow> unsupportedCharset (state_of (process_chunk env v st))"
  by (simp add: step_passthrough writer_write_def)

lemma last_chunk_state:
  assumes "read_loop env cs Done initial_state = Normal st"
  shows "state_of (read_loop env (cs @ [v]) fin initial_state) = state_of (process_chunk env v st)"
  using assms
  by (cases "process_chunk env v st") (simp_all add: read_loop_append read_loop_Nil)

text \<open>
  C10. Let the stream end in scanning mode, and let its last chunk be \<^verbatim>\<open>c\<close> followed
  by bytes \<^verbatim>\<open>p\<close> that start a multi-byte sequence and do not finish it: after
  \<^verbatim>\<open>c\<close> the decoder holds nothing, and decoding \<^verbatim>\<open>p\<close> yields no text and
  leaves bytes pending. Then \<^verbatim>\<open>p\<close> is not empty, the sink receives exactly what it
  receives when the last chunk is \<^verbatim>\<open>c\<close> alone, and the decoder still holds the
  unfinished sequence when the sink is closed: the bytes of \<^verbatim>\<open>p\<close> are never written.
\<close>

theorem pending_bytes_never_written:
  assumes "read_loop env cs Done initial_state = Normal st"
    and "\<not> unsupportedCharset (state_of (modifyHtmlStream env (cs @ [c @ p]) fin))"
    and "decode (decoder st) c = Inr (d, s)" and "bytes_needed d = 0"
    and "decode d p = Inr (d', [])" and "bytes_needed d' \<noteq> 0"
  shows "p \<noteq> []
       \<and> sink_log (state_of (modifyHtmlStream env (cs @ [c @ p]) fin))
           = sink_log (state_of (modifyHtmlStream env (cs @ [c]) fin))
       \<and> bytes_needed (decoder (state_of (modifyHtmlStream env (cs @ [c @ p]) fin))) \<noteq> 0"
proof -
  have cp: "decode (decoder st) (c @ p) = Inr (d', s)"
    using assms(3,5) by (simp add: decode_append)
  have fin_cp: "state_of (modifyHtmlStream env (cs @ [c @ p]) fin)
                  = state_of (writer_close env (state_of (process_chunk env (c @ p) st)))"
    by (simp add: modifyHtmlStream_eq last_chunk_state [OF assms(1)])
  have fin_c: "state_of (modifyHtmlStream env (cs @ [c]) fin)
                  = state_of (writer_close env (state_of (process_chunk env c st)))"
    by (simp add: modifyHtmlStream_eq last_chunk_state [OF assms(1)])
  have scanning: "\<not> unsupportedCharset (state_of (process_chunk env (c @ p) st))"
    using assms(2) unfolding fin_cp by (simp add: writer_close_def split: if_splits)
  have u: "\<not> unsupportedCharset st"
    using scanning process_chunk_stays_passthrough [of st env "c @ p"] by blast
  have content: "content st = []" using assms(1) by (rule reachable_content)
  have nf: "\<not> (firstChunk st \<and> chunkContainsInvalidCharset s)"
  proof
    assume "firstChunk st \<and> chunkContainsInvalidCharset s"
    then have "unsupportedCharset (state_of (process_chunk env (c @ p) st))"
      using step_flagged [OF u cp, of env] content by (simp add: writer_write_def)
    with scanning show False by contradiction
  qed
  have "p \<noteq> []"
  proof
    assume "p = []"
    then have "d' = d" using assms(5) by (simp add: decode_def serialize_eq)
    with assms(4,6) show False by simp
  qed
  moreover have "sink_log (state_of (process_chunk env (c @ p) st))
                   = sink_log (state_of (process_chunk env c st))"
    unfolding step_scan [OF u cp nf] step_scan [OF u assms(3) nf]
    by (simp add: writer_write_def)
  moreover have "decoder (state_of (process_chunk env (c @ p) st)) = d'"
    unfolding step_scan [OF u cp nf] by (simp add: writer_write_def)
  ultimately show ?thesis using assms(6)
    unfolding fin_cp fin_c by (simp add: writer_close_def)
qed

theorem pending_bytes_never_written_witness:
  "sink_bytes (state_of (modifyHtmlStream \<lparr>write_ok = (\<lambda>k. True), close_ok = True\<rparr>
       ([ascii ''</head>''] @ [ascii ''caf'' @ [0xC3]]) Done))
     = encode (TAG_MANAGER @ MARKER) @ ascii ''caf''
   \<and> sink_log (state_of (modifyHtmlStream \<lparr>write_ok = (\<lambda>k. True), close_ok = True\<rparr>
       ([ascii ''</head>''] @ [ascii ''caf'' @ [0xC3]]) Done))
     = sink_log (state_of (modifyHtmlStream \<lparr>write_ok = (\<lambda>k. True), close_ok = True\<rparr>
       ([ascii ''</head>''] @ [ascii ''caf'']) Done))
   \<and> bytes_needed (decoder (state_of (modifyHtmlStream \<lparr>write_ok = (\<lambda>k. True), close_ok = True\<rparr>
       ([ascii ''</head>''] @ [ascii ''caf'' @ [0xC3]]) Done))) \<noteq> 0"
proof -
  let ?env = "\<lparr>write_ok = (\<lambda>k. True), close_ok = True\<rparr>"
  let ?d = "new_decoder\<lparr>bom_seen := True\<rparr>"
  let ?st = "\<lparr>decoder = ?d, firstChunk = False,
               unsupportedCharset = False, content = [],
               sink_log = [Wrote (encode (TAG_MANAGER @ MARKER))], attempts = 1, injected = 1\<rparr>"
  have r: "read_loop ?env [ascii ''</head>''] Done initial_state = Normal ?st"
    by (simp add: run_defs codec_defs sniff_defs string_defs ascii_def)
  have out: "sink_bytes (state_of (modifyHtmlStream ?env ([ascii ''</head>''] @ [ascii ''caf'' @ [0xC3]]) Done))
     = encode (TAG_MANAGER @ MARKER) @ ascii ''caf''"
    by (simp add: run_defs codec_defs sniff_defs string_defs ascii_def)
  have u: "\<not> unsupportedCharset (state_of (modifyHtmlStream ?env ([ascii ''</head>''] @ [ascii ''caf'' @ [0xC3]]) Done))"
    by (simp add: run_defs codec_defs sniff_defs string_defs ascii_def)
  have dc: "decode (decoder ?st) (ascii ''caf'') = Inr (?d, js ''caf'')"
    by (simp add: codec_defs ascii_def js_def)
  have b: "bytes_needed ?d = 0" by (simp add: new_decoder_def)
  have dp: "decode ?d [0xC3] = Inr (?d\<lparr>bytes_needed := 1, code_point := 3\<rparr>, [])"
    by (simp add: codec_defs)
  have bp: "bytes_needed (?d\<lparr>bytes_needed := 1, code_point := 3\<rparr>) \<noteq> 0" by simp
  from pending_bytes_never_written [OF r u dc b dp bp] out show ?thesis by simp
qed

section \<open>How often the snippet is injected\<close>







section \<open>Responses that declare iso-8859-1\<close>




section \<open>Decoding what the encoder wrote\<close>

lemma encode_Nil [simp]: "encode [] = []"
  by (simp add: encode_def)

lemma encode_Cons: "encode (c # s) = utf8_encode_cp c @ encode s"
  by (simp add: encode_def)

lemma encode_append: "encode (a @ b) = encode a @ encode b"
  by (simp add: encode_def)

lemma unat_byte: "n < 256 \<Longrightarrow> unat (of_nat n :: byte) = n"
  by (simp add: unat_of_nat)

lemma mod_offset: "x < m \<Longrightarrow> (k * m + x) mod m = (x::nat)"
  by simp

lemma handler_ascii:
  "unat b \<le> 0x7F \<Longrightarrow> bytes_needed d = 0 \<Longrightarrow> utf8_handler d b = Inr (d, Some (unat b))"
  by (simp add: utf8_handler_def)

lemma handler_lead2:
  assumes "unat b = 0xC0 + x" "2 \<le> x" "x < 32"
  shows "utf8_handler new_decoder b
    = Inr (\<lparr>code_point = x, bytes_seen = 0, bytes_needed = 1, lower_boundary = 0x80,
            upper_boundary = 0xBF, bom_seen = False\<rparr>, None)"
proof -
  have m: "(0xC0 + x) mod 32 = x" using mod_offset [of x 32 6] assms by simp
  show ?thesis using assms by (simp add: utf8_handler_def new_decoder_def m)
qed

lemma handler_lead3:
  assumes "unat b = 0xE0 + x" "x < 16"
  shows "utf8_handler new_decoder b
    = Inr (\<lparr>code_point = x, bytes_seen = 0, bytes_needed = 2,
            lower_boundary = (if x = 0 then 0xA0 else 0x80),
            upper_boundary = (if x = 13 then 0x9F else 0xBF), bom_seen = False\<rparr>, None)"
proof -
  have m: "(0xE0 + x) mod 16 = x" using mod_offset [of x 16 14] assms by simp
  show ?thesis using assms by (simp add: utf8_handler_def new_decoder_def m)
qed

lemma handler_lead4:
  assumes "unat b = 0xF0 + x" "x < 5"
  shows "utf8_handler new_decoder b
    = Inr (\<lparr>code_point = x, bytes_seen = 0, bytes_needed = 3,
            lower_boundary = (if x = 0 then 0x90 else 0x80),
            upper_boundary = (if x = 4 then 0x8F else 0xBF), bom_seen = False\<rparr>, None)"
proof -
  have m: "(0xF0 + x) mod 8 = x" using mod_offset [of x 8 30] assms by simp
  show ?thesis using assms by (simp add: utf8_handler_def new_decoder_def m)
qed

lemma handler_cont:
  assumes "unat b = 0x80 + y" "y < 64" "lo \<le> 0x80 + y" "0x80 + y \<le> hi" "k + 1 \<noteq> n" "n \<noteq> 0"
  shows "utf8_handler \<lparr>code_point = x, bytes_seen = k, bytes_needed = n, lower_boundary = lo,
            upper_boundary = hi, bom_seen = False\<rparr> b
    = Inr (\<lparr>code_point = x * 64 + y, bytes_seen = k + 1, bytes_needed = n,
                  lower_boundary = 0x80, upper_boundary = 0xBF, bom_seen = False\<rparr>, None)"
proof -
  have m: "(0x80 + y) mod 64 = y" using mod_offset [of y 64 2] assms by simp
  show ?thesis using assms by (simp add: utf8_handler_def new_decoder_def m)
qed

lemma handler_last:
  assumes "unat b = 0x80 + y" "y < 64" "lo \<le> 0x80 + y" "0x80 + y \<le> hi" "k + 1 = n"
  shows "utf8_handler \<lparr>code_point = x, bytes_seen = k, bytes_needed = n, lower_boundary = lo,
            upper_boundary = hi, bom_seen = False\<rparr> b
    = Inr (new_decoder, Some (x * 64 + y))"
proof -
  have m: "(0x80 + y) mod 64 = y" using mod_offset [of y 64 2] assms by simp
  show ?thesis using assms by (auto simp: utf8_handler_def new_decoder_def m)
qed

lemma cont_bounds: "y < 64 \<Longrightarrow> (0x80::nat) \<le> 0x80 + y \<and> 0x80 + y \<le> 0xBF"
  by simp

lemma decode1:
  assumes "c \<le> 0x7F"
  shows "decode_bytes new_decoder (utf8_encode_cp c) = Inr (new_decoder, [c])"
proof -
  have u: "unat (of_nat c :: byte) = c" using assms by (intro unat_byte) simp
  have "utf8_handler new_decoder (of_nat c) = Inr (new_decoder, Some c)"
    using handler_ascii [of "of_nat c" new_decoder] assms u by (simp add: new_decoder_def)
  then show ?thesis using assms by (simp add: utf8_encode_cp_def)
qed

lemma decode2:
  assumes "0x7F < c" "c \<le> 0x7FF"
  shows "decode_bytes new_decoder (utf8_encode_cp c) = Inr (new_decoder, [c])"
proof -
  define b1 :: byte where "b1 = of_nat (0xC0 + c div 64)"
  define b2 :: byte where "b2 = of_nat (0x80 + c mod 64)"
  have a: "c div 64 < 32" "2 \<le> c div 64" using assms by auto
  have e: "utf8_encode_cp c = [b1, b2]"
    using assms unfolding b1_def b2_def utf8_encode_cp_def by simp
  have u1: "unat b1 = 0xC0 + c div 64" unfolding b1_def using a by (intro unat_byte) simp
  have u2: "unat b2 = 0x80 + c mod 64" unfolding b2_def by (intro unat_byte) simp
  have r: "c div 64 * 64 + c mod 64 = c" by simp
  note h1 = handler_lead2 [OF u1 a(2) a(1)]
  have y: "c mod 64 < 64" by simp
  have h2: "utf8_handler \<lparr>code_point = c div 64, bytes_seen = 0, bytes_needed = 1,
              lower_boundary = 0x80, upper_boundary = 0xBF, bom_seen = False\<rparr> b2
            = Inr (new_decoder, Some c)"
    using handler_last [OF u2 y cont_bounds [OF y, THEN conjunct1]
                         cont_bounds [OF y, THEN conjunct2], of 0 1 "c div 64"]
    unfolding r by simp
  show ?thesis unfolding e
    by (simp only: decode_bytes.simps h1 h2 sum.case prod.case option.case)
qed

lemma div_bound: "(c::nat) < k * m \<Longrightarrow> c div m < k"
  by (simp add: less_mult_imp_div_less)

lemma div_lower: "k * m \<le> (c::nat) \<Longrightarrow> 0 < m \<Longrightarrow> k \<le> c div m"
  by (simp add: less_eq_div_iff_mult_less_eq)

lemma mod_upper: "(d::nat) div 64 = q \<Longrightarrow> d < q * 64 + r \<Longrightarrow> d mod 64 < r"
proof -
  assume a: "d div 64 = q" "d < q * 64 + r"
  have "d = d div 64 * 64 + d mod 64" by simp
  with a show ?thesis by linarith
qed

lemma mod_lower: "(d::nat) div 64 = 0 \<Longrightarrow> r \<le> d \<Longrightarrow> r \<le> d mod 64"
  by (simp add: div_eq_0_iff)

lemma decode3:
  assumes "0x7FF < c" "c \<le> 0xFFFF" "scalar c"
  shows "decode_bytes new_decoder (utf8_encode_cp c) = Inr (new_decoder, [c])"
proof -
  define x where "x = c div 4096"
  define y1 where "y1 = c div 64 mod 64"
  define y2 where "y2 = c mod 64"
  define b1 :: byte where "b1 = of_nat (0xE0 + x)"
  define b2 :: byte where "b2 = of_nat (0x80 + y1)"
  define b3 :: byte where "b3 = of_nat (0x80 + y2)"
  have x: "x < 16" unfolding x_def using assms(2) by (intro div_bound) simp
  have y: "y1 < 64" "y2 < 64" unfolding y1_def y2_def by simp_all
  have e: "utf8_encode_cp c = [b1, b2, b3]"
    using assms(1,2) unfolding b1_def b2_def b3_def x_def y1_def y2_def utf8_encode_cp_def
    by simp
  have u1: "unat b1 = 0xE0 + x" unfolding b1_def using x by (intro unat_byte) simp
  have u2: "unat b2 = 0x80 + y1" unfolding b2_def using y by (intro unat_byte) simp
  have u3: "unat b3 = 0x80 + y2" unfolding b3_def using y by (intro unat_byte) simp
  have q: "c div 4096 = c div 64 div 64" by (simp add: div_mult2_eq)
  have r: "(x * 64 + y1) * 64 + y2 = c" unfolding x_def y1_def y2_def q by simp
  have lo: "(if x = 0 then 0xA0 else 0x80) \<le> 0x80 + y1"
  proof (cases "x = 0")
    case True
    have "32 \<le> c div 64" using assms(1) by (intro div_lower) simp_all
    then have "32 \<le> y1" unfolding y1_def using True unfolding x_def q by (intro mod_lower)
    then show ?thesis using True by simp
  next
    case False
    then show ?thesis by simp
  qed
  have hi: "0x80 + y1 \<le> (if x = 13 then 0x9F else 0xBF)"
  proof (cases "x = 13")
    case True
    have "c < 0xD800" using True assms(2,3) x unfolding x_def scalar_def
      by (cases "c < 0xD800") (simp_all add: div_bound)
    then have "c div 64 < 13 * 64 + 32" by (intro div_bound) simp
    then have "y1 < 32" unfolding y1_def using True unfolding x_def q by (intro mod_upper)
    then show ?thesis using True by simp
  next
    case False
    then show ?thesis using y by simp
  qed
  note h1 = handler_lead3 [OF u1 x]
  have h2: "utf8_handler \<lparr>code_point = x, bytes_seen = 0, bytes_needed = 2,
              lower_boundary = (if x = 0 then 0xA0 else 0x80),
              upper_boundary = (if x = 13 then 0x9F else 0xBF), bom_seen = False\<rparr> b2
            = Inr (\<lparr>code_point = x * 64 + y1, bytes_seen = 0 + 1, bytes_needed = 2,
                  lower_boundary = 0x80, upper_boundary = 0xBF, bom_seen = False\<rparr>, None)"
    by (rule handler_cont [OF u2 y(1) lo hi]) simp_all
  have h3: "utf8_handler \<lparr>code_point = x * 64 + y1, bytes_seen = 0 + 1, bytes_needed = 2,
                  lower_boundary = 0x80, upper_boundary = 0xBF, bom_seen = False\<rparr> b3
            = Inr (new_decoder, Some c)"
    using handler_last [OF u3 y(2) cont_bounds [OF y(2), THEN conjunct1]
                         cont_bounds [OF y(2), THEN conjunct2], of "0 + 1" 2 "x * 64 + y1"]
    unfolding r by simp
  show ?thesis unfolding e
    by (simp only: decode_bytes.simps h1 h2 h3 sum.case prod.case option.case)
qed


lemma decode4:
  assumes "0xFFFF < c" "c \<le> 0x10FFFF"
  shows "decode_bytes new_decoder (utf8_encode_cp c) = Inr (new_decoder, [c])"
proof -
  define x where "x = c div 262144"
  define y1 where "y1 = c div 4096 mod 64"
  define y2 where "y2 = c div 64 mod 64"
  define y3 where "y3 = c mod 64"
  define b1 :: byte where "b1 = of_nat (0xF0 + x)"
  define b2 :: byte where "b2 = of_nat (0x80 + y1)"
  define b3 :: byte where "b3 = of_nat (0x80 + y2)"
  define b4 :: byte where "b4 = of_nat (0x80 + y3)"
  have x: "x < 5" unfolding x_def using assms(2) by (intro div_bound) simp
  have y: "y1 < 64" "y2 < 64" "y3 < 64" unfolding y1_def y2_def y3_def by simp_all
  have e: "utf8_encode_cp c = [b1, b2, b3, b4]"
    using assms(1) unfolding b1_def b2_def b3_def b4_def x_def y1_def y2_def y3_def
      utf8_encode_cp_def
    by simp
  have u1: "unat b1 = 0xF0 + x" unfolding b1_def using x by (intro unat_byte) simp
  have u2: "unat b2 = 0x80 + y1" unfolding b2_def using y by (intro unat_byte) simp
  have u3: "unat b3 = 0x80 + y2" unfolding b3_def using y by (intro unat_byte) simp
  have u4: "unat b4 = 0x80 + y3" unfolding b4_def using y by (intro unat_byte) simp
  have q1: "c div 4096 = c div 64 div 64" by (simp add: div_mult2_eq)
  have q2: "c div 262144 = c div 64 div 64 div 64" by (simp add: div_mult2_eq)
  have q3: "c div 262144 = c div 4096 div 64" by (simp add: div_mult2_eq)
  have r: "((x * 64 + y1) * 64 + y2) * 64 + y3 = c"
    unfolding x_def y1_def y2_def y3_def q1 q2 by simp
  have lo: "(if x = 0 then 0x90 else 0x80) \<le> 0x80 + y1"
  proof (cases "x = 0")
    case True
    have "16 \<le> c div 4096" using assms(1) by (intro div_lower) simp_all
    then have "16 \<le> y1" unfolding y1_def using True unfolding x_def q3 by (intro mod_lower)
    then show ?thesis using True by simp
  next
    case False
    then show ?thesis by simp
  qed
  have hi: "0x80 + y1 \<le> (if x = 4 then 0x8F else 0xBF)"
  proof (cases "x = 4")
    case True
    have "c div 4096 < 4 * 64 + 16" using assms(2) by (intro div_bound) simp
    then have "y1 < 16" unfolding y1_def using True unfolding x_def q3 by (intro mod_upper)
    then show ?thesis using True by simp
  next
    case False
    then show ?thesis using y by simp
  qed
  note h1 = handler_lead4 [OF u1 x]
  have h2: "utf8_handler \<lparr>code_point = x, bytes_seen = 0, bytes_needed = 3,
              lower_boundary = (if x = 0 then 0x90 else 0x80),
              upper_boundary = (if x = 4 then 0x8F else 0xBF), bom_seen = False\<rparr> b2
            = Inr (\<lparr>code_point = x * 64 + y1, bytes_seen = 0 + 1, bytes_needed = 3,
                  lower_boundary = 0x80, upper_boundary = 0xBF, bom_seen = False\<rparr>, None)"
    by (rule handler_cont [OF u2 y(1) lo hi]) simp_all
  have h3: "utf8_handler \<lparr>code_point = x * 64 + y1, bytes_seen = 0 + 1, bytes_needed = 3,
                  lower_boundary = 0x80, upper_boundary = 0xBF, bom_seen = False\<rparr> b3
            = Inr (\<lparr>code_point = (x * 64 + y1) * 64 + y2, bytes_seen = 0 + 1 + 1,
                  bytes_needed = 3, lower_boundary = 0x80, upper_boundary = 0xBF,
                  bom_seen = False\<rparr>, None)"
    by (rule handler_cont [OF u3 y(2) cont_bounds [OF y(2), THEN conjunct1]
                         cont_bounds [OF y(2), THEN conjunct2]]) simp_all
  have h4: "utf8_handler \<lparr>code_point = (x * 64 + y1) * 64 + y2, bytes_seen = 0 + 1 + 1,
                  bytes_needed = 3, lower_boundary = 0x80, upper_boundary = 0xBF,
                  bom_seen = False\<rparr> b4
            = Inr (new_decoder, Some c)"
    using handler_last [OF u4 y(3) cont_bounds [OF y(3), THEN conjunct1]
                         cont_bounds [OF y(3), THEN conjunct2], of "0 + 1 + 1" 3
                         "(x * 64 + y1) * 64 + y2"]
    unfolding r by simp
  show ?thesis unfolding e
    by (simp only: decode_bytes.simps h1 h2 h3 h4 sum.case prod.case option.case)
qed

lemma decode_scalar:
  "scalar c \<Longrightarrow> decode_bytes new_decoder (utf8_encode_cp c) = Inr (new_decoder, [c])"
proof -
  assume s: "scalar c"
  consider "c \<le> 0x7F" | "0x7F < c" "c \<le> 0x7FF" | "0x7FF < c" "c \<le> 0xFFFF"
    | "0xFFFF < c" "c \<le> 0x10FFFF"
    using s unfolding scalar_def by linarith
  then show ?thesis
    using s by cases (simp_all add: decode1 decode2 decode3 decode4)
qed

lemma decode_bytes_encode:
  "\<forall>c\<in>set t. scalar c \<Longrightarrow> decode_bytes new_decoder (encode t) = Inr (new_decoder, t)"
proof (induction t)
  case Nil
  then show ?case by simp
next
  case (Cons c t)
  then show ?case
    by (simp add: encode_Cons decode_bytes_append decode_scalar)
qed

section \<open>The texts of the chunks and the text of the body\<close>

lemma chunk_texts_concat:
  "decode d (concat cs) = Inr (d', s) \<Longrightarrow> \<exists>ss. chunk_texts d cs = Some (d', ss) \<and> concat ss = s"
proof (induction cs arbitrary: d s)
  case Nil
  then show ?case by (simp add: decode_def serialize_eq)
next
  case (Cons v vs)
  from Cons.prems obtain d1 s1 s2
    where v: "decode d v = Inr (d1, s1)" and r: "decode d1 (concat vs) = Inr (d', s2)"
      and s: "s = s1 @ s2"
    by (auto simp: decode_append split: sum.splits)
  from Cons.IH [OF r] obtain ss where "chunk_texts d1 vs = Some (d', ss)" "concat ss = s2"
    by blast
  then show ?case using v s by simp
qed

lemma decode_encode:
  assumes "\<forall>c\<in>set t. scalar c"
  shows "\<exists>d. decode new_decoder (encode t) = Inr (d, strip_bom t)"
  using decode_bytes_encode [OF assms]
  by (cases t) (simp_all add: decode_def serialize_def strip_bom_def new_decoder_def)

section \<open>The loop in scanning mode\<close>

lemma scanning_loop:
  assumes "\<forall>k. write_ok env k"
  shows "\<not> unsupportedCharset st \<Longrightarrow>
         \<not> (firstChunk st \<and> (case ss of [] \<Rightarrow> False | s # r \<Rightarrow> chunkContainsInvalidCharset s)) \<Longrightarrow>
         chunk_texts (decoder st) cs = Some (d', ss) \<Longrightarrow>
         \<exists>st1. read_loop env cs fin st = end_of_stream fin st1
              \<and> sink_bytes st1 = sink_bytes st @ encode (concat (map inject ss))
              \<and> injected st1 = injected st + length (filter (sublist MARKER) ss)
              \<and> \<not> unsupportedCharset st1"
proof (induction cs arbitrary: st ss)
  case Nil
  then show ?case by (auto simp: read_loop_Nil)
next
  case (Cons v vs)
  from Cons.prems(3) obtain d1 s ss1
    where v: "decode (decoder st) v = Inr (d1, s)" and r: "chunk_texts d1 vs = Some (d', ss1)"
      and ss: "ss = s # ss1"
    by (auto split: sum.splits option.splits)
  have nf: "\<not> (firstChunk st \<and> chunkContainsInvalidCharset s)"
    using Cons.prems(2) ss by simp
  obtain st2 where step: "process_chunk env v st = Normal st2"
    and b: "sink_bytes st2 = sink_bytes st @ encode (inject s)"
    and i: "injected st2 = injected st + (if sublist MARKER s then 1 else 0)"
    and u: "\<not> unsupportedCharset st2" and f: "\<not> firstChunk st2" and d: "decoder st2 = d1"
    using assms Cons.prems(1) unfolding step_scan [OF Cons.prems(1) v nf]
    by (cases "inject s = []") (simp_all add: writer_write_def sink_bytes_def)
  have f': "\<not> (firstChunk st2 \<and> (case ss1 of [] \<Rightarrow> False | s # r \<Rightarrow> chunkContainsInvalidCharset s))"
    using f by simp
  from Cons.IH [OF u f' r [folded d]] obtain st1
    where "read_loop env vs fin st2 = end_of_stream fin st1"
      and "sink_bytes st1 = sink_bytes st2 @ encode (concat (map inject ss1))"
      and "injected st1 = injected st2 + length (filter (sublist MARKER) ss1)"
      and "\<not> unsupportedCharset st1"
    by blast
  then show ?case using step b i ss by (auto simp: encode_append)
qed


lemma scanning_run:
  assumes "\<forall>k. write_ok env k"
    and "chunk_texts new_decoder cs = Some (d', ss)"
    and "\<not> first_chunk_flagged cs"
  shows "sink_bytes (state_of (modifyHtmlStream env cs fin)) = encode (concat (map inject ss))
       \<and> injected (state_of (modifyHtmlStream env cs fin)) = length (filter (sublist MARKER) ss)
       \<and> \<not> unsupportedCharset (state_of (modifyHtmlStream env cs fin))"
proof -
  have u: "\<not> unsupportedCharset initial_state" by (simp add: initial_state_def)
  have f: "\<not> (firstChunk initial_state
              \<and> (case ss of [] \<Rightarrow> False | s # r \<Rightarrow> chunkContainsInvalidCharset s))"
    using assms(2,3)
    by (cases cs) (auto simp: first_chunk_flagged_def split: sum.splits option.splits)
  have d: "chunk_texts (decoder initial_state) cs = Some (d', ss)"
    using assms(2) by (simp add: initial_state_def)
  from scanning_loop [OF assms(1) u f d, of fin] obtain st1
    where "read_loop env cs fin initial_state = end_of_stream fin st1"
      and "sink_bytes st1 = sink_bytes initial_state @ encode (concat (map inject ss))"
      and "injected st1 = injected initial_state + length (filter (sublist MARKER) ss)"
      and "\<not> unsupportedCharset st1"
    by blast
  then show ?thesis
    by (simp add: modifyHtmlStream_eq writer_close_def initial_state_def sink_bytes_def)
qed

section \<open>Occurrences of the marker in a text cut into pieces\<close>

lemma sublist_prefix_drop: "sublist pat s \<longleftrightarrow> (\<exists>j. prefix pat (drop j s))"
proof
  assume "sublist pat s"
  then obtain ps zs where "s = ps @ pat @ zs" by (auto simp: sublist_def)
  then have "prefix pat (drop (length ps) s)" by simp
  then show "\<exists>j. prefix pat (drop j s)" ..
next
  assume "\<exists>j. prefix pat (drop j s)"
  then obtain j zs where "drop j s = pat @ zs" by (auto simp: prefix_def)
  then have "s = take j s @ pat @ zs" by (metis append_take_drop_id)
  then show "sublist pat s" by (auto simp: sublist_def)
qed

lemma occurrences_set:
  "j \<in> set (occurrences pat s) \<longleftrightarrow> j \<le> length s \<and> prefix pat (drop j s)"
  by (auto simp: occurrences_def simp del: upt_Suc)

lemma occurrences_single:
  assumes "occurrences pat s = [k]" "pat \<noteq> []"
  shows "prefix pat (drop j s) \<longleftrightarrow> j = k"
proof
  assume p: "prefix pat (drop j s)"
  then have "drop j s \<noteq> []" using assms(2) by auto
  then have "j \<le> length s" by simp
  then have "j \<in> set (occurrences pat s)" using p by (simp add: occurrences_set)
  then show "j = k" using assms(1) by simp
next
  assume "j = k"
  moreover have "k \<in> set (occurrences pat s)" using assms(1) by simp
  ultimately show "prefix pat (drop j s)" by (simp add: occurrences_set)
qed

lemma occurrences_none:
  assumes "occurrences pat s = []" "pat \<noteq> []"
  shows "\<not> sublist pat s"
proof
  assume "sublist pat s"
  then obtain j where p: "prefix pat (drop j s)" by (auto simp: sublist_prefix_drop)
  then have "drop j s \<noteq> []" using assms(2) by auto
  then have "j \<le> length s" by simp
  then have "j \<in> set (occurrences pat s)" using p by (simp add: occurrences_set)
  then show False using assms(1) by simp
qed

lemma inject_absent: "\<not> sublist MARKER s \<Longrightarrow> inject s = s"
  by (simp add: inject_def find_first_None [symmetric])

lemma map_inject_absent: "\<not> sublist MARKER (concat ss) \<Longrightarrow> map inject ss = ss"
proof (induction ss)
  case Nil
  then show ?case by simp
next
  case (Cons s ss)
  have "\<not> sublist MARKER s" using Cons.prems by (simp add: sublist_append)
  moreover have "\<not> sublist MARKER (concat ss)" using Cons.prems by (simp add: sublist_append)
  ultimately show ?case using Cons.IH by (simp add: inject_absent)
qed


lemma MARKER_not_Nil: "MARKER \<noteq> []"
  by (simp add: MARKER_def js_def)

lemma sublist_concat: "s \<in> set ss \<Longrightarrow> sublist pat s \<Longrightarrow> sublist pat (concat ss)"
proof (induction ss)
  case Nil
  then show ?case by simp
next
  case (Cons a ss)
  then show ?case by (auto simp: sublist_append)
qed

lemma inject_present:
  "find_first MARKER s = Some p \<Longrightarrow> inject s = take p s @ TAG_MANAGER @ drop p s"
  by (simp add: inject_def)

lemma inject_concat:
  "\<forall>j. prefix MARKER (drop j (concat ss)) \<longleftrightarrow> j = k \<Longrightarrow> \<exists>s\<in>set ss. sublist MARKER s \<Longrightarrow>
   concat (map inject ss) = take k (concat ss) @ TAG_MANAGER @ drop k (concat ss)
   \<and> length (filter (sublist MARKER) ss) = 1"
proof (induction ss arbitrary: k)
  case Nil
  then show ?case by simp
next
  case (Cons s ss)
  let ?rest = "concat ss"
  have U: "\<And>j. prefix MARKER (drop j (s @ ?rest)) \<longleftrightarrow> j = k" using Cons.prems(1) by simp
  show ?case
  proof (cases "sublist MARKER s")
    case True
    then obtain p where fp: "find_first MARKER s = Some p"
      using find_first_None [of MARKER s] by (cases "find_first MARKER s") auto
    from find_first_Some [OF fp] have p: "p \<le> length s" "prefix MARKER (drop p s)" by auto
    have "prefix MARKER (drop p (s @ ?rest))" using p by (simp add: prefix_append)
    then have pk: "p = k" using U by blast
    have no_rest: "\<not> sublist MARKER ?rest"
    proof
      assume "sublist MARKER ?rest"
      then obtain j where j: "prefix MARKER (drop j ?rest)" by (auto simp: sublist_prefix_drop)
      then have "prefix MARKER (drop (length s + j) (s @ ?rest))" by simp
      then have "length s + j = k" using U by blast
      then have "p = length s" using pk p(1) by simp
      then show False using p(2) MARKER_not_Nil by simp
    qed
    have "filter (sublist MARKER) ss = []"
      using no_rest by (auto simp: filter_empty_conv dest: sublist_concat)
    then show ?thesis
      using True pk p(1) map_inject_absent [OF no_rest] inject_present [OF fp] by simp
  next
    case False
    then obtain s' where "s' \<in> set ss" "sublist MARKER s'" using Cons.prems(2) by auto
    then have "sublist MARKER ?rest" by (rule sublist_concat)
    then obtain j0 where j0: "prefix MARKER (drop j0 ?rest)" by (auto simp: sublist_prefix_drop)
    then have "prefix MARKER (drop (length s + j0) (s @ ?rest))" by simp
    then have k: "length s + j0 = k" using U by blast
    have U': "\<forall>j. prefix MARKER (drop j ?rest) \<longleftrightarrow> j = j0"
    proof (intro allI iffI)
      fix j assume "prefix MARKER (drop j ?rest)"
      then have "prefix MARKER (drop (length s + j) (s @ ?rest))" by simp
      then have "length s + j = k" using U by blast
      then show "j = j0" using k by simp
    next
      fix j assume "j = j0"
      then show "prefix MARKER (drop j ?rest)" using j0 by simp
    qed
    have ex: "\<exists>s\<in>set ss. sublist MARKER s" using \<open>s' \<in> set ss\<close> \<open>sublist MARKER s'\<close> by blast
    from Cons.IH [OF U' ex] show ?thesis
      using False k by (auto simp: inject_absent)
  qed
qed


section \<open>A marker inside a chunk is a marker inside its text\<close>

lemma handler_lower:
  "0x80 \<le> lower_boundary d \<Longrightarrow> utf8_handler d b = Inr (d1, out) \<Longrightarrow> 0x80 \<le> lower_boundary d1"
  by (auto simp: utf8_handler_def Let_def split: if_splits)

lemma decode_bytes_lower:
  "0x80 \<le> lower_boundary d \<Longrightarrow> decode_bytes d bs = Inr (d1, s) \<Longrightarrow> 0x80 \<le> lower_boundary d1"
proof (induction bs arbitrary: d s)
  case Nil
  then show ?case by simp
next
  case (Cons b bs)
  from Cons.prems(2) obtain da out sa
    where h: "utf8_handler d b = Inr (da, out)" and r: "decode_bytes da bs = Inr (d1, sa)"
    by (auto split: sum.splits)
  from Cons.IH [OF handler_lower [OF Cons.prems(1) h] r] show ?case .
qed

lemma decode_lower:
  "0x80 \<le> lower_boundary d \<Longrightarrow> decode d bs = Inr (d1, s) \<Longrightarrow> 0x80 \<le> lower_boundary d1"
  by (auto simp: decode_def serialize_eq split: sum.splits if_splits dest: decode_bytes_lower)

lemma decode_bytes_ascii:
  "0x80 \<le> lower_boundary d \<Longrightarrow> \<forall>b\<in>set m. unat b < 0x80 \<Longrightarrow> m \<noteq> [] \<Longrightarrow>
   decode_bytes d m = Inr (d1, s) \<Longrightarrow> s = map unat m \<and> d1 = d"
proof (induction m arbitrary: s)
  case Nil
  then show ?case by simp
next
  case (Cons b m)
  have b: "unat b < 0x80" using Cons.prems(2) by simp
  have needed: "bytes_needed d = 0"
  proof (rule ccontr)
    assume "bytes_needed d \<noteq> 0"
    then have "utf8_handler d b = Inl TypeError"
      using b Cons.prems(1) by (simp add: utf8_handler_def)
    then show False using Cons.prems(4) by simp
  qed
  have h: "utf8_handler d b = Inr (d, Some (unat b))"
    using needed b by (simp add: utf8_handler_def)
  show ?case
  proof (cases "m = []")
    case True
    then show ?thesis using Cons.prems(4) h by simp
  next
    case False
    from Cons.prems(4) h obtain sa where r: "decode_bytes d m = Inr (d1, sa)"
      and s: "s = unat b # sa"
      by (auto split: sum.splits)
    from Cons.IH [OF Cons.prems(1) _ False r] Cons.prems(2) s show ?thesis by simp
  qed
qed

lemma decode_ascii_sublist:
  assumes "0x80 \<le> lower_boundary d" "\<forall>b\<in>set m. unat b < 0x80" "m \<noteq> []"
    and "decode d (u @ m @ w) = Inr (d', s)"
  shows "sublist (map unat m) s"
proof -
  from assms(4) obtain dr raw where raw: "decode_bytes d (u @ m @ w) = Inr (dr, raw)"
    and s: "s = snd (serialize dr raw)"
    by (auto simp: decode_def split: sum.splits)
  from raw obtain d1 r1 d2 r2 r3
    where a: "decode_bytes d u = Inr (d1, r1)" and b: "decode_bytes d1 m = Inr (d2, r2)"
      and r: "raw = r1 @ r2 @ r3"
    by (auto simp: decode_bytes_append split: sum.splits)
  have r2: "r2 = map unat m"
    using decode_bytes_ascii [OF decode_bytes_lower [OF assms(1) a] assms(2,3) b] by simp
  have hd_m: "hd (map unat m) \<noteq> 0xFEFF"
    using assms(2,3) by (cases m) auto
  have full: "sublist (map unat m) (r1 @ map unat m @ r3)" by (rule sublist_appendI)
  show ?thesis
  proof (cases r1)
    case Nil
    have "hd raw \<noteq> 0xFEFF" using r r2 Nil hd_m assms(3) by simp
    then have "s = raw" using s by (simp add: serialize_eq)
    then show ?thesis using full r r2 by simp
  next
    case (Cons c r1')
    have "s = raw \<or> s = r1' @ map unat m @ r3"
      using s r r2 Cons by (auto simp: serialize_eq)
    then show ?thesis
    proof
      assume "s = raw"
      then show ?thesis using full r r2 by simp
    next
      assume "s = r1' @ map unat m @ r3"
      then show ?thesis by (simp add: sublist_appendI)
    qed
  qed
qed

lemma MARKER_bytes: "map unat MARKER_BYTES = MARKER"
  by (simp add: MARKER_BYTES_def ascii_def MARKER_def js_def)

lemma MARKER_BYTES_ascii: "\<forall>b\<in>set MARKER_BYTES. unat b < 0x80"
  by (simp add: MARKER_BYTES_def ascii_def)

lemma MARKER_BYTES_not_Nil: "MARKER_BYTES \<noteq> []"
  by (simp add: MARKER_BYTES_def ascii_def)

lemma decode_marker_sublist:
  assumes "0x80 \<le> lower_boundary d" "sublist MARKER_BYTES v" "decode d v = Inr (d', s)"
  shows "sublist MARKER s"
proof -
  from assms(2) obtain u w where "v = u @ MARKER_BYTES @ w" by (auto simp: sublist_def)
  with assms(3) have "decode d (u @ MARKER_BYTES @ w) = Inr (d', s)" by simp
  from decode_ascii_sublist [OF assms(1) MARKER_BYTES_ascii MARKER_BYTES_not_Nil this]
  show ?thesis by (simp add: MARKER_bytes)
qed

lemma chunk_texts_marker:
  "0x80 \<le> lower_boundary d \<Longrightarrow> chunk_texts d cs = Some (d', ss) \<Longrightarrow>
   \<exists>c\<in>set cs. sublist MARKER_BYTES c \<Longrightarrow> \<exists>s\<in>set ss. sublist MARKER s"
proof (induction cs arbitrary: d ss)
  case Nil
  then show ?case by simp
next
  case (Cons v vs)
  from Cons.prems(2) obtain d1 s ss1
    where v: "decode d v = Inr (d1, s)" and r: "chunk_texts d1 vs = Some (d', ss1)"
      and ss: "ss = s # ss1"
    by (auto split: sum.splits option.splits)
  show ?case
  proof (cases "sublist MARKER_BYTES v")
    case True
    then show ?thesis using decode_marker_sublist [OF Cons.prems(1) True v] ss by simp
  next
    case False
    then have "\<exists>c\<in>set vs. sublist MARKER_BYTES c" using Cons.prems(3) by simp
    from Cons.IH [OF decode_lower [OF Cons.prems(1) v] r this] show ?thesis using ss by simp
  qed
qed


section \<open>Bodies that are the encoding of a text\<close>

lemma utf8_run_texts:
  assumes "\<forall>c\<in>set t. scalar c" "concat cs = encode t"
  shows "\<exists>d ss. chunk_texts new_decoder cs = Some (d, ss) \<and> concat ss = strip_bom t"
proof -
  from decode_encode [OF assms(1)] obtain d
    where "decode new_decoder (concat cs) = Inr (d, strip_bom t)"
    unfolding assms(2) by blast
  from chunk_texts_concat [OF this] show ?thesis by blast
qed

lemma new_decoder_lower: "0x80 \<le> lower_boundary new_decoder"
  by (simp add: new_decoder_def)

lemma single_marker_run:
  assumes "\<forall>k. write_ok env k" and "\<forall>c\<in>set t. scalar c" and "concat cs = encode t"
    and "\<not> first_chunk_flagged cs"
    and "occurrences MARKER (strip_bom t) = [k]"
    and "\<exists>c\<in>set cs. sublist MARKER_BYTES c"
  shows "sink_bytes (state_of (modifyHtmlStream env cs fin))
           = encode (take k (strip_bom t) @ TAG_MANAGER @ drop k (strip_bom t))
       \<and> injected (state_of (modifyHtmlStream env cs fin)) = 1
       \<and> \<not> unsupportedCharset (state_of (modifyHtmlStream env cs fin))"
proof -
  from utf8_run_texts [OF assms(2,3)] obtain d ss
    where ct: "chunk_texts new_decoder cs = Some (d, ss)" and cc: "concat ss = strip_bom t"
    by blast
  have U: "\<forall>j. prefix MARKER (drop j (concat ss)) \<longleftrightarrow> j = k"
    unfolding cc using occurrences_single [OF assms(5) MARKER_not_Nil] by blast
  have ex: "\<exists>s\<in>set ss. sublist MARKER s"
    by (rule chunk_texts_marker [OF new_decoder_lower ct assms(6)])
  from inject_concat [OF U ex] scanning_run [OF assms(1) ct assms(4), of fin] cc
  show ?thesis by simp
qed

lemma no_marker_run:
  assumes "\<forall>k. write_ok env k" and "\<forall>c\<in>set t. scalar c" and "concat cs = encode t"
    and "\<not> first_chunk_flagged cs"
    and "occurrences MARKER (strip_bom t) = []"
  shows "sink_bytes (state_of (modifyHtmlStream env cs fin)) = encode (strip_bom t)
       \<and> injected (state_of (modifyHtmlStream env cs fin)) = 0
       \<and> \<not> unsupportedCharset (state_of (modifyHtmlStream env cs fin))"
proof -
  from utf8_run_texts [OF assms(2,3)] obtain d ss
    where ct: "chunk_texts new_decoder cs = Some (d, ss)" and cc: "concat ss = strip_bom t"
    by blast
  have no: "\<not> sublist MARKER (concat ss)"
    unfolding cc by (rule occurrences_none [OF assms(5) MARKER_not_Nil])
  have "filter (sublist MARKER) ss = []"
    using no by (auto simp: filter_empty_conv dest: sublist_concat)
  then show ?thesis
    using map_inject_absent [OF no] scanning_run [OF assms(1) ct assms(4), of fin] cc by simp
qed

section \<open>A marker that no boundary splits lies inside one chunk\<close>

lemma split_at_iff:
  "split_at p s \<longleftrightarrow>
     (\<exists>xs1 xs2. MARKER_BYTES = xs1 @ xs2 \<and> xs1 \<noteq> [] \<and> xs2 \<noteq> [] \<and> suffix xs1 p \<and> prefix xs2 s)"
proof
  assume "split_at p s"
  then have "\<exists>j\<in>set [1..<length MARKER_BYTES].
               suffix (take j MARKER_BYTES) p \<and> prefix (drop j MARKER_BYTES) s"
    unfolding split_at_def list_ex_iff .
  then obtain j where j: "1 \<le> j" "j < length MARKER_BYTES"
    and sp: "suffix (take j MARKER_BYTES) p" "prefix (drop j MARKER_BYTES) s"
    by auto
  have a: "MARKER_BYTES = take j MARKER_BYTES @ drop j MARKER_BYTES" by simp
  have b: "take j MARKER_BYTES \<noteq> []" using j by auto
  have c: "drop j MARKER_BYTES \<noteq> []" using j by auto
  from a b c sp
  show "\<exists>xs1 xs2. MARKER_BYTES = xs1 @ xs2 \<and> xs1 \<noteq> [] \<and> xs2 \<noteq> [] \<and> suffix xs1 p \<and> prefix xs2 s"
    by blast
next
  assume "\<exists>xs1 xs2. MARKER_BYTES = xs1 @ xs2 \<and> xs1 \<noteq> [] \<and> xs2 \<noteq> [] \<and> suffix xs1 p \<and> prefix xs2 s"
  then obtain xs1 xs2 where m: "MARKER_BYTES = xs1 @ xs2" and ne: "xs1 \<noteq> []" "xs2 \<noteq> []"
    and sp: "suffix xs1 p" "prefix xs2 s"
    by blast
  have l: "length MARKER_BYTES = length xs1 + length xs2" unfolding m by simp
  have l1: "1 \<le> length xs1" using ne(1) by (cases xs1) simp_all
  have l2: "0 < length xs2" using ne(2) by simp
  have j: "length xs1 \<in> set [1..<length MARKER_BYTES]" using l l1 l2 by simp
  have t: "take (length xs1) MARKER_BYTES = xs1" unfolding m by simp
  have d: "drop (length xs1) MARKER_BYTES = xs2" unfolding m by simp
  show "split_at p s"
    unfolding split_at_def list_ex_iff
    by (rule bexI [OF _ j]) (simp add: t d sp)
qed

lemma never_split_chunk:
  "never_split p cs \<Longrightarrow> sublist MARKER_BYTES (concat cs) \<Longrightarrow> \<exists>c\<in>set cs. sublist MARKER_BYTES c"
proof (induction cs arbitrary: p)
  case Nil
  then show ?case using MARKER_BYTES_not_Nil by simp
next
  case (Cons c cs)
  from Cons.prems(2) consider "sublist MARKER_BYTES c" | "sublist MARKER_BYTES (concat cs)"
    | xs1 xs2 where "MARKER_BYTES = xs1 @ xs2" "suffix xs1 c" "prefix xs2 (concat cs)"
    by (auto simp: sublist_append)
  then show ?case
  proof cases
    case 1
    then show ?thesis by simp
  next
    case 2
    from Cons.IH [OF _ 2] Cons.prems(1) show ?thesis by auto
  next
    case 3
    show ?thesis
    proof (cases "xs1 = [] \<or> xs2 = []")
      case True
      then have "sublist MARKER_BYTES c \<or> sublist MARKER_BYTES (concat cs)"
        using 3 by (auto dest: prefix_imp_sublist suffix_imp_sublist)
      then show ?thesis using Cons.IH [of "p @ c"] Cons.prems(1) by auto
    next
      case False
      have "cs \<noteq> []" using 3(3) False by auto
      then obtain c' cs' where cs: "cs = c' # cs'" by (cases cs) auto
      have "suffix xs1 (p @ c)" using 3(2) by (rule suffix_appendI)
      then have "split_at (p @ c) (concat cs)"
        unfolding split_at_iff using 3(1,3) False by blast
      moreover have "\<not> split_at (p @ c) (concat cs)" using Cons.prems(1) unfolding cs by simp
      ultimately show ?thesis by contradiction
    qed
  qed
qed

lemma encode_MARKER: "encode MARKER = MARKER_BYTES"
  by (simp add: codec_defs MARKER_def js_def MARKER_BYTES_def ascii_def)

lemma sublist_encode: "sublist a t \<Longrightarrow> sublist (encode a) (encode t)"
proof -
  assume "sublist a t"
  then obtain ps zs where "t = ps @ a @ zs" by (auto simp: sublist_def)
  then have "encode t = encode ps @ encode a @ encode zs" by (simp add: encode_append)
  then show ?thesis by simp
qed

lemma sublist_strip_bom: "sublist a (strip_bom t) \<Longrightarrow> sublist a t"
  by (cases t) (auto simp: strip_bom_def sublist_Cons_right split: if_splits)

lemma marker_in_some_chunk:
  assumes "\<forall>c\<in>set t. scalar c" "concat cs = encode t" "marker_never_split cs"
    and "sublist MARKER (strip_bom t)"
  shows "\<exists>c\<in>set cs. sublist MARKER_BYTES c"
proof -
  have "sublist MARKER t" using assms(4) by (rule sublist_strip_bom)
  then have "sublist (encode MARKER) (encode t)" by (rule sublist_encode)
  then have "sublist MARKER_BYTES (concat cs)" by (simp add: encode_MARKER assms(2))
  with assms(3) show ?thesis unfolding marker_never_split_def by (rule never_split_chunk)
qed

section \<open>Exactly one occurrence\<close>

lemma find_first_least:
  "find_first pat s = Some k \<Longrightarrow> j < k \<Longrightarrow> \<not> prefix pat (drop j s)"
proof (induction s arbitrary: k j)
  case Nil
  then show ?case by (auto split: if_splits)
next
  case (Cons c cs)
  show ?case
  proof (cases "prefix pat (c # cs)")
    case True
    then show ?thesis using Cons.prems by simp
  next
    case False
    then obtain k' where k': "find_first pat cs = Some k'" "k = Suc k'"
      using Cons.prems(1) by auto
    show ?thesis
    proof (cases j)
      case 0
      then show ?thesis using False by simp
    next
      case (Suc j')
      then show ?thesis using Cons.IH [OF k'(1), of j'] Cons.prems(2) k'(2) by simp
    qed
  qed
qed

lemma occurrences_first_only:
  assumes "find_first pat s = Some k" "find_first pat (drop (Suc k) s) = None"
  shows "occurrences pat s = [k]"
proof -
  from find_first_Some [OF assms(1)] have k: "k \<le> length s" "prefix pat (drop k s)" by auto
  have set: "set (occurrences pat s) = {k}"
  proof (intro equalityI subsetI)
    fix j assume "j \<in> set (occurrences pat s)"
    then have j: "j \<le> length s" "prefix pat (drop j s)" by (auto simp: occurrences_set)
    have "\<not> j < k" using find_first_least [OF assms(1)] j(2) by blast
    moreover have "\<not> k < j"
    proof
      assume "k < j"
      then have "drop j s = drop (j - Suc k) (drop (Suc k) s)" by simp
      then have "sublist pat (drop (Suc k) s)"
        using j(2) sublist_prefix_drop [of pat "drop (Suc k) s"] by auto
      then show False using assms(2) by (simp add: find_first_None)
    qed
    ultimately show "j \<in> {k}" by simp
  next
    fix j assume "j \<in> {k}"
    then show "j \<in> set (occurrences pat s)" using k by (simp add: occurrences_set)
  qed
  have "distinct (occurrences pat s)" by (simp add: occurrences_def del: upt_Suc)
  then show ?thesis using set
    by (metis distinct.simps(2) empty_iff insert_iff list.exhaust list.set(1) list.set(2)
          set_ConsD singletonD)
qed


lemma TAG_MANAGER_length: "length TAG_MANAGER = 358"
  by (simp add: TAG_MANAGER_def js_def)

lemma TAG_MANAGER_ascii: "\<forall>c\<in>set TAG_MANAGER. c < 0x80"
  by (simp add: TAG_MANAGER_def js_def)

lemma TAG_MANAGER_scalar: "\<forall>c\<in>set TAG_MANAGER. scalar c"
  using TAG_MANAGER_ascii by (auto simp: scalar_def)

lemma TAG_MANAGER_no_marker: "find_first MARKER (TAG_MANAGER @ MARKER) = Some 358"
  by (simp add: TAG_MANAGER_def MARKER_def js_def)

lemma encode_not_Nil: "s \<noteq> [] \<Longrightarrow> encode s \<noteq> []"
  by (cases s) (simp_all add: encode_Cons utf8_encode_cp_def)

section \<open>The snippet in the output\<close>

lemma border_free:
  fixes S :: "'a list"
  assumes "\<not> sublist (take 2 S) (tl S)" and "hd S \<noteq> last S"
    and "1 \<le> r" and "r < length S"
  shows "take (length S - r) S \<noteq> drop r S"
proof
  assume eq: "take (length S - r) S = drop r S"
  show False
  proof (cases "length S - r = 1")
    case True
    have "S \<noteq> []" using assms(4) by auto
    have "take 1 S = [hd S]" using \<open>S \<noteq> []\<close> by (cases S) simp_all
    moreover have "drop r S = [last S]"
    proof -
      have "r = length S - 1" using True assms(4) by simp
      then have "drop r S = drop (length S - 1) S" by simp
      also have "\<dots> = [last S]" using \<open>S \<noteq> []\<close>
        by (metis append_butlast_last_id append_eq_conv_conj length_butlast)
      finally show ?thesis .
    qed
    ultimately show False using eq True assms(2) by simp
  next
    case False
    then have two: "2 \<le> length S - r" using assms(4) by simp
    have "take 2 (drop r S) = take 2 (take (length S - r) S)" using eq by simp
    also have "\<dots> = take 2 S" using two by (simp add: min_def)
    finally have "prefix (take 2 S) (drop r S)" by (metis take_is_prefix)
    moreover have "drop r S = drop (r - 1) (tl S)" using assms(3) by (simp add: drop_Suc [symmetric] drop_tl)
    ultimately have "sublist (take 2 S) (tl S)"
      using sublist_prefix_drop [of "take 2 S" "tl S"] by auto
    then show False using assms(1) by simp
  qed
qed


lemma prefix_take_eq: "prefix xs ys \<Longrightarrow> take (length xs) ys = xs"
  by (auto simp: prefix_def)

lemma prefix_append_short:
  assumes "prefix xs (ys @ zs)" "length xs \<le> length ys"
  shows "prefix xs ys"
proof -
  have "xs = take (length xs) (ys @ zs)" using prefix_take_eq [OF assms(1)] by simp
  also have "\<dots> = take (length xs) ys" using assms(2) by simp
  finally have "xs = take (length xs) ys" .
  then show ?thesis by (metis take_is_prefix)
qed

lemma overlap_front:
  assumes "prefix S (u @ S @ b)" "length u < length S"
  shows "take (length S - length u) S = drop (length u) S"
proof -
  have "S = take (length S) (u @ S @ b)" using prefix_take_eq [OF assms(1)] by simp
  also have "\<dots> = u @ take (length S - length u) S" using assms(2) by simp
  finally have "S = u @ take (length S - length u) S" .
  then have "drop (length u) S = drop (length u) (u @ take (length S - length u) S)" by simp
  then show ?thesis by simp
qed

lemma overlap_back:
  assumes "prefix S (drop q S @ b)" "q < length S"
  shows "take (length S - q) S = drop q S"
proof -
  have "take (length S - q) S = take (length S - q) (take (length S) (drop q S @ b))"
    using prefix_take_eq [OF assms(1)] by simp
  also have "\<dots> = take (length S - q) (drop q S @ b)" by (simp add: min_def)
  also have "\<dots> = drop q S" by simp
  finally show ?thesis .
qed

lemma unique_after_insert:
  fixes S :: "'a list"
  assumes nb: "\<not> sublist (take 2 S) (tl S)" and hl: "hd S \<noteq> last S"
    and absent: "\<not> sublist S (a @ b)"
  shows "prefix S (drop p (a @ S @ b)) \<longleftrightarrow> p = length a"
proof
  assume "p = length a"
  then show "prefix S (drop p (a @ S @ b))" by simp
next
  assume pre: "prefix S (drop p (a @ S @ b))"
  have na: "\<not> sublist S a" and nb': "\<not> sublist S b" using absent by (simp_all add: sublist_append)
  show "p = length a"
  proof (rule ccontr)
    assume "p \<noteq> length a"
    then consider "p < length a" | "length a < p" by linarith
    then show False
    proof cases
      case 1
      let ?u = "drop p a"
      have u: "1 \<le> length ?u" using 1 by simp
      have pre': "prefix S (?u @ S @ b)" using pre 1 by simp
      show False
      proof (cases "length ?u < length S")
        case True
        from overlap_front [OF pre' True] border_free [OF nb hl u True] show False by simp
      next
        case False
        then have "length S \<le> length ?u" by simp
        then have "prefix S ?u" using pre' by (rule prefix_append_short [rotated])
        then have "sublist S a" using sublist_prefix_drop [of S a] by blast
        then show False using na by simp
      qed
    next
      case 2
      define q where "q = p - length a"
      have q: "1 \<le> q" using 2 unfolding q_def by simp
      have d: "drop p (a @ S @ b) = drop q (S @ b)" using 2 unfolding q_def by simp
      show False
      proof (cases "q < length S")
        case True
        have "prefix S (drop q S @ b)" using pre d True by simp
        from overlap_back [OF this True] border_free [OF nb hl q True] show False by simp
      next
        case False
        then have "drop q (S @ b) = drop (q - length S) b" by simp
        then have "sublist S b" using pre d sublist_prefix_drop [of S b] by auto
        then show False using nb' by simp
      qed
    qed
  qed
qed

lemma occurrences_unique:
  assumes "\<forall>j. prefix pat (drop j s) \<longleftrightarrow> j = k" "pat \<noteq> []"
  shows "occurrences pat s = [k]"
proof -
  have p: "prefix pat (drop k s)" using assms(1) by simp
  then have "drop k s \<noteq> []" using assms(2) by auto
  then have k: "k \<le> length s" by simp
  have set: "set (occurrences pat s) = {k}"
  proof (intro equalityI subsetI)
    fix j assume "j \<in> set (occurrences pat s)"
    then have "prefix pat (drop j s)" by (simp add: occurrences_set)
    then show "j \<in> {k}" using assms(1) by simp
  next
    fix j assume "j \<in> {k}"
    then show "j \<in> set (occurrences pat s)" using p k by (simp add: occurrences_set)
  qed
  have "distinct (occurrences pat s)" by (simp add: occurrences_def del: upt_Suc)
  then show ?thesis using set
    by (metis distinct.simps(2) empty_iff insert_iff list.exhaust list.set(1) list.set(2)
          set_ConsD singletonD)
qed

lemma TAG_MANAGER_start_once: "\<not> sublist (take 2 TAG_MANAGER) (tl TAG_MANAGER)"
proof -
  have "find_first (take 2 TAG_MANAGER) (tl TAG_MANAGER) = None"
    by (simp add: TAG_MANAGER_def js_def)
  then show ?thesis by (simp add: find_first_None)
qed

lemma TAG_MANAGER_ends: "hd TAG_MANAGER \<noteq> last TAG_MANAGER"
  by (simp add: TAG_MANAGER_def js_def)

lemma snippet_once:
  assumes "\<not> sublist TAG_MANAGER s"
  shows "occurrences TAG_MANAGER (take k s @ TAG_MANAGER @ drop k s) = [length (take k s)]"
proof -
  have absent: "\<not> sublist TAG_MANAGER (take k s @ drop k s)" using assms by simp
  have ne: "TAG_MANAGER \<noteq> []" by (simp add: TAG_MANAGER_def js_def)
  have "\<forall>j. prefix TAG_MANAGER (drop j (take k s @ TAG_MANAGER @ drop k s))
              \<longleftrightarrow> j = length (take k s)"
    using unique_after_insert [OF TAG_MANAGER_start_once TAG_MANAGER_ends absent] by blast
  then show ?thesis using ne by (rule occurrences_unique)
qed

section \<open>A single injection\<close>

text \<open>
  C2 (as amended). Let the body be the UTF-8 encoding of a text of scalar values, cut into
  chunks in any way, let the first chunk not be flagged by the charset sniff, let
  \<^verbatim>\<open></head>\<close> occur exactly once in the text (taken without its byte order mark, if
  it has one), at position \<^verbatim>\<open>k\<close>, and let no chunk boundary split the marker.
  With a sink that accepts the writes, the output is the UTF-8 encoding of the
  text, without its byte order mark, with the snippet inserted right before the marker;
  exactly one injection takes place; and when the text does not already contain the
  snippet, the snippet occurs in the output text exactly once, at \<^verbatim>\<open>k\<close>.
\<close>

theorem single_injection:
  assumes "\<forall>k. write_ok env k" and "\<forall>c\<in>set t. scalar c" and "concat cs = encode t"
    and "\<not> first_chunk_flagged cs"
    and "occurrences MARKER (strip_bom t) = [k]"
    and "marker_never_split cs"
  shows "sink_bytes (state_of (modifyHtmlStream env cs fin))
           = encode (take k (strip_bom t) @ TAG_MANAGER @ drop k (strip_bom t))
       \<and> injected (state_of (modifyHtmlStream env cs fin)) = 1
       \<and> (\<not> sublist TAG_MANAGER (strip_bom t) \<longrightarrow>
            occurrences TAG_MANAGER (take k (strip_bom t) @ TAG_MANAGER @ drop k (strip_bom t))
              = [k])"
proof -
  have "k \<in> set (occurrences MARKER (strip_bom t))" using assms(5) by simp
  then have k: "k \<le> length (strip_bom t)" "prefix MARKER (drop k (strip_bom t))"
    by (simp_all add: occurrences_set)
  then have sub: "sublist MARKER (strip_bom t)" using sublist_prefix_drop by blast
  note m = marker_in_some_chunk [OF assms(2,3,6) sub]
  have "length (take k (strip_bom t)) = k" using k(1) by simp
  then show ?thesis
    using single_marker_run [OF assms(1-5) m, of fin] snippet_once [of "strip_bom t" k] by simp
qed

theorem single_injection_witness:
  "sink_bytes (state_of (modifyHtmlStream \<lparr>write_ok = (\<lambda>k. True), close_ok = True\<rparr>
      [ascii ''<html><head><title>x</title>'', ascii ''</head><body>hi</body></html>''] Done))
     = encode (js ''<html><head><title>x</title>'' @ TAG_MANAGER
               @ js ''</head><body>hi</body></html>'')
   \<and> injected (state_of (modifyHtmlStream \<lparr>write_ok = (\<lambda>k. True), close_ok = True\<rparr>
      [ascii ''<html><head><title>x</title>'', ascii ''</head><body>hi</body></html>''] Done))
     = 1
   \<and> occurrences TAG_MANAGER (js ''<html><head><title>x</title>'' @ TAG_MANAGER
               @ js ''</head><body>hi</body></html>'') = [28]"
proof -
  let ?env = "\<lparr>write_ok = (\<lambda>k. True), close_ok = True\<rparr>"
  let ?t = "js ''<html><head><title>x</title></head><body>hi</body></html>''"
  let ?cs = "[ascii ''<html><head><title>x</title>'', ascii ''</head><body>hi</body></html>'']"
  have a1: "\<forall>k. write_ok ?env k" by simp
  have a2: "\<forall>c\<in>set ?t. scalar c" by (simp add: js_def scalar_def)
  have a3: "concat ?cs = encode ?t" by (simp add: ascii_def js_def codec_defs)
  have a4: "\<not> first_chunk_flagged ?cs"
    by (simp add: first_chunk_flagged_def codec_defs ascii_def sniff_defs)
  have s: "strip_bom ?t = ?t" by (simp add: strip_bom_def js_def)
  have a5: "occurrences MARKER (strip_bom ?t) = [28]"
    unfolding s
    by (rule occurrences_first_only) (simp_all add: MARKER_def js_def)
  have a6: "marker_never_split ?cs"
    by (simp add: marker_never_split_def split_at_def MARKER_BYTES_def ascii_def suffix_to_prefix)
  have a7: "\<not> sublist TAG_MANAGER ?t"
  proof
    assume "sublist TAG_MANAGER ?t"
    then have "length TAG_MANAGER \<le> length ?t" by (rule sublist_length_le)
    then show False by (simp add: TAG_MANAGER_length js_def)
  qed
  from single_injection [OF a1 a2 a3 a4 a5 a6, of Done] a7 show ?thesis
    unfolding s by (simp add: js_def)
qed


text \<open>
  C2 as stated fails in two ways. A text that starts with a byte order mark loses it: the
  decoder drops U+FEFF at the start of the stream, so the output is not the encoding of
  the input text with the snippet inserted. A text that already holds the snippet holds
  it twice afterwards. In both inputs \<^verbatim>\<open></head>\<close> occurs exactly once and lies inside
  one chunk.
\<close>

theorem bom_dropped_and_snippet_twice:
  "encode (0xFEFF # js ''<head></head>'') = [0xEF, 0xBB, 0xBF] @ ascii ''<head></head>''
   \<and> occurrences MARKER (0xFEFF # js ''<head></head>'') = [7]
   \<and> marker_never_split [[0xEF, 0xBB, 0xBF] @ ascii ''<head></head>'']
   \<and> \<not> first_chunk_flagged [[0xEF, 0xBB, 0xBF] @ ascii ''<head></head>'']
   \<and> sink_bytes (state_of (modifyHtmlStream \<lparr>write_ok = (\<lambda>k. True), close_ok = True\<rparr>
        [[0xEF, 0xBB, 0xBF] @ ascii ''<head></head>''] Done))
       = encode (js ''<head>'' @ TAG_MANAGER @ MARKER)
   \<and> encode (js ''<head>'' @ TAG_MANAGER @ MARKER)
       \<noteq> encode (take 7 (0xFEFF # js ''<head></head>'') @ TAG_MANAGER
                  @ drop 7 (0xFEFF # js ''<head></head>''))
   \<and> occurrences MARKER (js ''<head>'' @ TAG_MANAGER @ MARKER) = [364]
   \<and> marker_never_split [ascii ''<head>'', encode (TAG_MANAGER @ MARKER)]
   \<and> \<not> first_chunk_flagged [ascii ''<head>'', encode (TAG_MANAGER @ MARKER)]
   \<and> sink_bytes (state_of (modifyHtmlStream \<lparr>write_ok = (\<lambda>k. True), close_ok = True\<rparr>
        [ascii ''<head>'', encode (TAG_MANAGER @ MARKER)] Done))
       = encode (js ''<head>'' @ TAG_MANAGER @ TAG_MANAGER @ MARKER)
   \<and> occurrences TAG_MANAGER (js ''<head>'' @ TAG_MANAGER @ TAG_MANAGER @ MARKER) \<noteq> [6]"
proof -
  let ?env = "\<lparr>write_ok = (\<lambda>k. True), close_ok = True\<rparr>"
  let ?t = "js ''<head>'' @ TAG_MANAGER @ MARKER"
  let ?cs = "[ascii ''<head>'', encode (TAG_MANAGER @ MARKER)]"
  have b1: "encode (0xFEFF # js ''<head></head>'') = [0xEF, 0xBB, 0xBF] @ ascii ''<head></head>''"
    by (simp add: codec_defs js_def ascii_def)
  have b2: "occurrences MARKER (0xFEFF # js ''<head></head>'') = [7]"
    by (rule occurrences_first_only) (simp_all add: MARKER_def js_def)
  have b3: "sink_bytes (state_of (modifyHtmlStream ?env
        [[0xEF, 0xBB, 0xBF] @ ascii ''<head></head>''] Done))
       = encode (js ''<head>'' @ TAG_MANAGER @ MARKER)"
    by (simp add: run_defs codec_defs sniff_defs string_defs ascii_def)
  have b4: "encode (js ''<head>'' @ TAG_MANAGER @ MARKER)
       \<noteq> encode (take 7 (0xFEFF # js ''<head></head>'') @ TAG_MANAGER
                  @ drop 7 (0xFEFF # js ''<head></head>''))"
    by (simp add: js_def encode_Cons utf8_encode_cp_def)
  have f: "find_first MARKER ?t = Some 364"
    using TAG_MANAGER_no_marker by (simp add: js_def MARKER_def)
  have a1: "\<forall>k. write_ok ?env k" by simp
  have a2: "\<forall>c\<in>set ?t. scalar c"
    using TAG_MANAGER_scalar by (auto simp: js_def MARKER_def scalar_def)
  have a3: "concat ?cs = encode ?t"
    by (simp add: encode_append) (simp add: codec_defs js_def ascii_def)
  have a4: "\<not> first_chunk_flagged ?cs"
    by (simp add: first_chunk_flagged_def codec_defs ascii_def sniff_defs)
  have s: "strip_bom ?t = ?t" by (simp add: strip_bom_def js_def)
  have d: "drop (Suc 364) ?t = tl MARKER"
    by (simp add: js_def TAG_MANAGER_length drop_Suc)
  have a5: "occurrences MARKER ?t = [364]"
  proof (rule occurrences_first_only [OF f])
    show "find_first MARKER (drop (Suc 364) ?t) = None"
      unfolding d by (simp add: MARKER_def js_def)
  qed
  have a6: "\<exists>c\<in>set ?cs. sublist MARKER_BYTES c"
    by (simp add: encode_append encode_MARKER)
  have tk: "take 364 ?t = js ''<head>'' @ TAG_MANAGER" "drop 364 ?t = MARKER"
    by (simp_all add: js_def TAG_MANAGER_length)
  have b6: "sink_bytes (state_of (modifyHtmlStream ?env ?cs Done))
       = encode (js ''<head>'' @ TAG_MANAGER @ TAG_MANAGER @ MARKER)"
  proof -
    have a5': "occurrences MARKER (strip_bom ?t) = [364]" unfolding s by (rule a5)
    from single_marker_run [OF a1 a2 a3 a4 a5' a6, of Done]
    have "sink_bytes (state_of (modifyHtmlStream ?env ?cs Done))
            = encode (take 364 (strip_bom ?t) @ TAG_MANAGER @ drop 364 (strip_bom ?t))"
      by (rule conjunct1)
    then show ?thesis unfolding s tk by simp
  qed
  have b7: "occurrences TAG_MANAGER (js ''<head>'' @ TAG_MANAGER @ TAG_MANAGER @ MARKER) \<noteq> [6]"
  proof
    assume "occurrences TAG_MANAGER (js ''<head>'' @ TAG_MANAGER @ TAG_MANAGER @ MARKER) = [6]"
    moreover have "364 \<in> set (occurrences TAG_MANAGER
        (js ''<head>'' @ TAG_MANAGER @ TAG_MANAGER @ MARKER))"
      by (simp add: occurrences_set js_def TAG_MANAGER_length)
    ultimately show False by simp
  qed
  have n1: "marker_never_split [[0xEF, 0xBB, 0xBF] @ ascii ''<head></head>'']"
    by (simp add: marker_never_split_def split_at_def MARKER_BYTES_def ascii_def)
  have n2: "marker_never_split ?cs"
    by (simp add: marker_never_split_def split_at_def MARKER_BYTES_def ascii_def suffix_to_prefix)
  have f1: "\<not> first_chunk_flagged [[0xEF, 0xBB, 0xBF] @ ascii ''<head></head>'']"
    by (simp add: first_chunk_flagged_def codec_defs ascii_def sniff_defs)
  from b1 b2 n1 f1 b3 b4 a5 n2 a4 b6 b7 show ?thesis by blast
qed

section \<open>Chunking\<close>

text \<open>
  C3 (as amended). Let two sequences of chunks carry the same bytes, the UTF-8 encoding of
  a text of scalar values in which \<^verbatim>\<open></head>\<close> occurs at most once. If in neither
  sequence a chunk boundary splits the marker, and in neither the first chunk is flagged
  by the charset sniff, then, with sinks that accept the writes, the two outputs are the
  same bytes.
\<close>

theorem chunking_invariance:
  assumes "\<forall>k. write_ok env1 k" and "\<forall>k. write_ok env2 k"
    and "\<forall>c\<in>set t. scalar c"
    and "concat cs1 = encode t" and "concat cs2 = encode t"
    and "\<not> first_chunk_flagged cs1" and "\<not> first_chunk_flagged cs2"
    and "length (occurrences MARKER (strip_bom t)) \<le> 1"
    and "marker_never_split cs1" and "marker_never_split cs2"
  shows "sink_bytes (state_of (modifyHtmlStream env1 cs1 fin1))
           = sink_bytes (state_of (modifyHtmlStream env2 cs2 fin2))"
proof (cases "occurrences MARKER (strip_bom t)")
  case Nil
  from no_marker_run [OF assms(1,3,4,6) Nil, of fin1] no_marker_run [OF assms(2,3,5,7) Nil, of fin2]
  show ?thesis by simp
next
  case (Cons k ks)
  then have one: "occurrences MARKER (strip_bom t) = [k]" using assms(8) by simp
  then have "k \<in> set (occurrences MARKER (strip_bom t))" by simp
  then have "prefix MARKER (drop k (strip_bom t))" by (simp add: occurrences_set)
  then have sub: "sublist MARKER (strip_bom t)" using sublist_prefix_drop by blast
  note m1 = marker_in_some_chunk [OF assms(3,4,9) sub]
  note m2 = marker_in_some_chunk [OF assms(3,5,10) sub]
  from single_marker_run [OF assms(1,3,4,6) one m1, of fin1]
       single_marker_run [OF assms(2,3,5,7) one m2, of fin2]
  show ?thesis by simp
qed

theorem chunking_invariance_witness:
  "sink_bytes (state_of (modifyHtmlStream \<lparr>write_ok = (\<lambda>k. True), close_ok = True\<rparr>
      [ascii ''<html><head><title>x</title>'', ascii ''</head><body>hi</body></html>''] Done))
   = sink_bytes (state_of (modifyHtmlStream \<lparr>write_ok = (\<lambda>k. True), close_ok = True\<rparr>
      [ascii ''<html><head>'', ascii ''<title>x</title></head><body>'', ascii ''hi</body></html>'']
      Done))"
proof -
  let ?env = "\<lparr>write_ok = (\<lambda>k. True), close_ok = True\<rparr>"
  let ?t = "js ''<html><head><title>x</title></head><body>hi</body></html>''"
  let ?cs1 = "[ascii ''<html><head><title>x</title>'', ascii ''</head><body>hi</body></html>'']"
  let ?cs2 = "[ascii ''<html><head>'', ascii ''<title>x</title></head><body>'',
               ascii ''hi</body></html>'']"
  have a1: "\<forall>k. write_ok ?env k" by simp
  have a2: "\<forall>c\<in>set ?t. scalar c" by (simp add: js_def scalar_def)
  have a3: "concat ?cs1 = encode ?t" by (simp add: ascii_def js_def codec_defs)
  have a4: "concat ?cs2 = encode ?t" by (simp add: ascii_def js_def codec_defs)
  have a5: "\<not> first_chunk_flagged ?cs1"
    by (simp add: first_chunk_flagged_def codec_defs ascii_def sniff_defs)
  have a6: "\<not> first_chunk_flagged ?cs2"
    by (simp add: first_chunk_flagged_def codec_defs ascii_def sniff_defs)
  have s: "strip_bom ?t = ?t" by (simp add: strip_bom_def js_def)
  have "occurrences MARKER (strip_bom ?t) = [28]"
    unfolding s
    by (rule occurrences_first_only) (simp_all add: MARKER_def js_def)
  then have a7: "length (occurrences MARKER (strip_bom ?t)) \<le> 1" by simp
  have a8: "marker_never_split ?cs1"
    by (simp add: marker_never_split_def split_at_def MARKER_BYTES_def ascii_def suffix_to_prefix)
  have a9: "marker_never_split ?cs2"
    by (simp add: marker_never_split_def split_at_def MARKER_BYTES_def ascii_def suffix_to_prefix)
  show ?thesis by (rule chunking_invariance [OF a1 a1 a2 a3 a4 a5 a6 a7 a8 a9])
qed

text \<open>
  C3 as stated fails. The same fourteen bytes, two markers, are delivered as one chunk and
  as two chunks; no boundary splits a marker. Delivered as one chunk they are injected
  once, before the first marker; delivered as two chunks they are injected twice.
\<close>

theorem two_markers_chunking_matters:
  "concat [ascii ''</head></head>''] = concat [ascii ''</head>'', ascii ''</head>'']
   \<and> marker_never_split [ascii ''</head></head>'']
   \<and> marker_never_split [ascii ''</head>'', ascii ''</head>'']
   \<and> sink_bytes (state_of (modifyHtmlStream \<lparr>write_ok = (\<lambda>k. True), close_ok = True\<rparr>
         [ascii ''</head></head>''] Done))
       = encode (TAG_MANAGER @ MARKER @ MARKER)
   \<and> sink_bytes (state_of (modifyHtmlStream \<lparr>write_ok = (\<lambda>k. True), close_ok = True\<rparr>
         [ascii ''</head>'', ascii ''</head>''] Done))
       = encode (TAG_MANAGER @ MARKER @ TAG_MANAGER @ MARKER)
   \<and> sink_bytes (state_of (modifyHtmlStream \<lparr>write_ok = (\<lambda>k. True), close_ok = True\<rparr>
         [ascii ''</head></head>''] Done))
       \<noteq> sink_bytes (state_of (modifyHtmlStream \<lparr>write_ok = (\<lambda>k. True), close_ok = True\<rparr>
         [ascii ''</head>'', ascii ''</head>''] Done))"
proof -
  let ?env = "\<lparr>write_ok = (\<lambda>k. True), close_ok = True\<rparr>"
  have c: "concat [ascii ''</head></head>''] = concat [ascii ''</head>'', ascii ''</head>'']"
    by (simp add: ascii_def)
  have n1: "marker_never_split [ascii ''</head></head>'']"
    by (simp add: marker_never_split_def split_at_def MARKER_BYTES_def ascii_def)
  have n2: "marker_never_split [ascii ''</head>'', ascii ''</head>'']"
    by (simp add: marker_never_split_def split_at_def MARKER_BYTES_def ascii_def suffix_to_prefix)
  have o1: "sink_bytes (state_of (modifyHtmlStream ?env [ascii ''</head></head>''] Done))
       = encode (TAG_MANAGER @ MARKER @ MARKER)"
    by (simp add: run_defs codec_defs sniff_defs string_defs ascii_def)
  have o2: "sink_bytes (state_of (modifyHtmlStream ?env [ascii ''</head>'', ascii ''</head>''] Done))
       = encode (TAG_MANAGER @ MARKER @ TAG_MANAGER @ MARKER)"
    by (simp add: run_defs codec_defs sniff_defs string_defs ascii_def)
  have ne: "encode TAG_MANAGER \<noteq> []"
    by (rule encode_not_Nil) (simp add: TAG_MANAGER_def js_def)
  have d: "encode (TAG_MANAGER @ MARKER @ MARKER) \<noteq> encode (TAG_MANAGER @ MARKER @ TAG_MANAGER @ MARKER)"
  proof
    assume "encode (TAG_MANAGER @ MARKER @ MARKER) = encode (TAG_MANAGER @ MARKER @ TAG_MANAGER @ MARKER)"
    then have "length (encode (TAG_MANAGER @ MARKER @ MARKER))
                 = length (encode (TAG_MANAGER @ MARKER @ TAG_MANAGER @ MARKER))" by simp
    then have "length (encode TAG_MANAGER) = 0" by (simp add: encode_append)
    then show False using ne by simp
  qed
  from c n1 n2 o1 o2 d show ?thesis by simp
qed

end
